theory Spec2Isabelle
  imports Main "HOL-Library.Word"
begin

unbundle bit_operations_syntax

section \<open>Data model of the DCC signal generator\<close>

text \<open>
  The development follows \<^verbatim>\<open>src/src/SignalGenerator.cpp\<close>. A \<^verbatim>\<open>uint8_t\<close> is an
  \<open>8 word\<close>, the \<^verbatim>\<open>int\<close> returned by the ADC driver a \<open>32 word\<close> read as two's
  complement, the \<^verbatim>\<open>uint64_t\<close> accumulator of the sampler a \<open>64 word\<close>.
\<close>

type_synonym u8 = "8 word"
type_synonym i32 = "32 word"
type_synonym u64 = "64 word"

text \<open>
  Modelled from the spec: the constant \<^verbatim>\<open>MAX_BYTES_IN_PACKET\<close> is declared in
  \<^verbatim>\<open>SignalGenerator.h\<close>; the spec gives a buffer of at least 10 bytes, and the serializer
  writes the indices 0 to 9.
\<close>

definition MAX_BYTES_IN_PACKET :: nat where
  "MAX_BYTES_IN_PACKET = 10"

text \<open>
  Modelled from the spec: the struct \<^verbatim>\<open>Packet\<close> is declared in \<^verbatim>\<open>SignalGenerator.h\<close>;
  its four fields are the ones the source file reads and writes. The buffer is a fixed
  array, here a function on indices; every access with a computed index checks the index
  against \<open>MAX_BYTES_IN_PACKET\<close>. The bit counters are natural numbers and the repeat
  count is an integer, as the \<^verbatim>\<open>int\<close> parameter of \<^verbatim>\<open>loadPacket\<close> it is assigned from.
\<close>

record Packet =
  buffer :: "nat \<Rightarrow> u8"
  numberOfBits :: nat
  numberOfRepeats :: int
  currentBit :: nat

text \<open>\<^verbatim>\<open>new Packet()\<close> and \<^verbatim>\<open>memset(p, 0, sizeof(Packet))\<close> both give the zeroed packet.\<close>

definition zeroPacket :: Packet where
  "zeroPacket = \<lparr>buffer = (\<lambda>_. 0), numberOfBits = 0, numberOfRepeats = 0, currentBit = 0\<rparr>"

text \<open>
  A \<^verbatim>\<open>Packet *\<close> is either the address of the member \<^verbatim>\<open>_idlePacket\<close> or the address of a
  packet allocated by \<^verbatim>\<open>configureSignal\<close>; the queues hold such pointers, so two queue
  entries may alias.
\<close>

datatype PacketRef = IdlePacket | PoolPacket nat

record SignalGenerator =
  packets :: "nat \<Rightarrow> Packet"
  idlePacket :: Packet
  availablePackets :: "PacketRef list"
  toSend :: "PacketRef list"
  currentPacket :: "PacketRef option"

fun packetAt :: "SignalGenerator \<Rightarrow> PacketRef \<Rightarrow> Packet" where
  "packetAt g IdlePacket = idlePacket g"
| "packetAt g (PoolPacket a) = packets g a"

fun packetUpd :: "PacketRef \<Rightarrow> (Packet \<Rightarrow> Packet) \<Rightarrow> SignalGenerator \<Rightarrow> SignalGenerator" where
  "packetUpd IdlePacket f g = g\<lparr>idlePacket := f (idlePacket g)\<rparr>"
| "packetUpd (PoolPacket a) f g = g\<lparr>packets := (packets g)(a := f (packets g a))\<rparr>"

text \<open>
  \<open>Blocked\<close>: the call spins in a polling loop whose condition nothing in the calling
  thread changes. \<open>OutOfRange\<close>: an index outside a vector or array (undefined behaviour
  in the source). \<open>DivisionByZero\<close>: an integer division by zero.
\<close>

datatype error = Blocked | OutOfRange | DivisionByZero

section \<open>The bit serializer: \<^verbatim>\<open>loadPacket\<close>\<close>

text \<open>The checksum loop \<^verbatim>\<open>for(i = 1; i < data.size(); i++) checksum ^= data[i]\<close>.\<close>

fun checksumLoop :: "u8 \<Rightarrow> u8 list \<Rightarrow> u8" where
  "checksumLoop checksum [] = checksum"
| "checksumLoop checksum (d # ds) = checksumLoop (checksum XOR d) ds"

text \<open>
  Lines 123 to 126: the checksum starts from \<^verbatim>\<open>data[0]\<close>, which does not exist for an
  empty vector, and is pushed at the back of the vector.
\<close>

definition appendChecksum :: "u8 list \<Rightarrow> error + u8 list" where
  "appendChecksum data =
     (case data of
        [] \<Rightarrow> Inl OutOfRange
      | d # ds \<Rightarrow> Inr (data @ [checksumLoop d ds]))"

text \<open>Arduino's \<^verbatim>\<open>bitRead(value, bit)\<close> is \<^verbatim>\<open>(((value) >> (bit)) & 0x01)\<close>.\<close>

definition bitRead :: "u8 \<Rightarrow> nat \<Rightarrow> u8" where
  "bitRead v n = drop_bit n v AND 1"

text \<open>
  Lines 118 to 156, for a frame \<open>data\<close> (payload and checksum) of at least three bytes:
  the writes to the packet taken from the free queue.
\<close>

definition fillPacket :: "u8 list \<Rightarrow> int \<Rightarrow> Packet \<Rightarrow> Packet" where
  "fillPacket data repeats p0 =
     (let p = p0\<lparr>numberOfRepeats := repeats, currentBit := 0\<rparr>;
          b = buffer p;
          b = b(0 := 0xFF);
          b = b(1 := 0xFF);
          b = b(2 := 0xFC + bitRead (data ! 0) 7);
          b = b(3 := push_bit 1 (data ! 0));
          b = b(4 := data ! 1);
          b = b(5 := drop_bit 1 (data ! 2));
          b = b(6 := push_bit 7 (data ! 2))
      in if length data = 3 then p\<lparr>buffer := b, numberOfBits := 49\<rparr>
         else
           let b = b(6 := b 6 + drop_bit 2 (data ! 3));
               b = b(7 := push_bit 6 (data ! 3))
           in if length data = 4 then p\<lparr>buffer := b, numberOfBits := 58\<rparr>
              else
                let b = b(7 := b 7 + drop_bit 3 (data ! 4));
                    b = b(8 := push_bit 5 (data ! 4))
                in if length data = 5 then p\<lparr>buffer := b, numberOfBits := 67\<rparr>
                   else
                     let b = b(8 := b 8 + drop_bit 4 (data ! 5));
                         b = b(9 := push_bit 4 (data ! 5))
                     in p\<lparr>buffer := b, numberOfBits := 76\<rparr>)"

text \<open>
  \<^verbatim>\<open>loadPacket\<close>: wait for a free packet, take it from the free queue, append the
  checksum, fill the packet and push it on the pending queue. With an empty free queue
  the polling loop of line 112 does not end by itself. \<^verbatim>\<open>data[2]\<close> is read whatever the
  size, so a frame of fewer than three bytes is read out of range. There is no other check
  of the size.
\<close>

definition loadPacket :: "u8 list \<Rightarrow> int \<Rightarrow> SignalGenerator \<Rightarrow> error + SignalGenerator" where
  "loadPacket data0 repeats g =
     (case availablePackets g of
        [] \<Rightarrow> Inl Blocked
      | packet # rest \<Rightarrow>
          (case appendChecksum data0 of
             Inl e \<Rightarrow> Inl e
           | Inr data \<Rightarrow>
               if length data < 3 then Inl OutOfRange
               else
                 let g1 = g\<lparr>availablePackets := rest\<rparr>;
                     g2 = packetUpd packet (fillPacket data repeats) g1
                 in Inr (g2\<lparr>toSend := toSend g2 @ [packet]\<rparr>)))"

text \<open>\<^verbatim>\<open>loadBytePacket\<close> copies \<open>length\<close> bytes of a C array into a vector.\<close>

definition loadBytePacket :: "u8 list \<Rightarrow> nat \<Rightarrow> u8 \<Rightarrow> SignalGenerator \<Rightarrow> error + SignalGenerator" where
  "loadBytePacket data len repeatCount g =
     (if length data < len then Inl OutOfRange
      else loadPacket (take len data) (uint repeatCount) g)"

text \<open>
  The pending packet pushed last, when the call returned: the packet a call to
  \<^verbatim>\<open>loadPacket\<close> has just enqueued.
\<close>

definition lastEnqueued :: "error + SignalGenerator \<Rightarrow> Packet option" where
  "lastEnqueued res =
     (case res of
        Inl _ \<Rightarrow> None
      | Inr g \<Rightarrow> if toSend g = [] then None else Some (packetAt g (last (toSend g))))"

section \<open>The interrupt routine: \<^verbatim>\<open>getNextBitToSend\<close>\<close>

definition bitMask :: "u8 list" where
  "bitMask = [0x80, 0x40, 0x20, 0x10, 0x08, 0x04, 0x02, 0x01]"

text \<open>The expression of line 102: bit \<open>i\<close> of the buffer, the most significant bit of a byte first.\<close>

definition bufferBit :: "Packet \<Rightarrow> nat \<Rightarrow> bool" where
  "bufferBit p i = (buffer p (i div 8) AND bitMask ! (i mod 8) \<noteq> 0)"

text \<open>The last valid bit of a packet, at position \<open>numberOfBits - 1\<close>.\<close>

definition lastBit :: "Packet \<Rightarrow> bool" where
  "lastBit p = bufferBit p (numberOfBits p - 1)"

text \<open>
  Bit \<open>i\<close> of the buffer as the specification words it: the bytes in order, the most
  significant bit of each byte first. It is stated on the bits of the byte, not through the
  mask table of the source.
\<close>

definition frameBit :: "Packet \<Rightarrow> nat \<Rightarrow> bool" where
  "frameBit p i = bit (buffer p (i div 8)) (7 - i mod 8)"

text \<open>Lines 75 to 88: a packet whose bits are all sent is replayed or released.\<close>

definition finishPacket :: "SignalGenerator \<Rightarrow> SignalGenerator" where
  "finishPacket g =
     (case currentPacket g of
        None \<Rightarrow> g
      | Some r \<Rightarrow>
          if currentBit (packetAt g r) = numberOfBits (packetAt g r) then
            if numberOfRepeats (packetAt g r) > 0 then
              packetUpd r (\<lambda>p. p\<lparr>numberOfRepeats := numberOfRepeats p - 1, currentBit := 0\<rparr>) g
            else
              (if r \<noteq> IdlePacket then g\<lparr>availablePackets := availablePackets g @ [r]\<rparr> else g)
                \<lparr>currentPacket := None\<rparr>
          else g)"

text \<open>Lines 91 to 99: without a current packet, take the next pending one or the idle packet.\<close>

definition fetchPacket :: "SignalGenerator \<Rightarrow> SignalGenerator" where
  "fetchPacket g =
     (case currentPacket g of
        Some r \<Rightarrow> g
      | None \<Rightarrow>
          (case toSend g of
             r # rest \<Rightarrow> g\<lparr>currentPacket := Some r, toSend := rest\<rparr>
           | [] \<Rightarrow>
               packetUpd IdlePacket (\<lambda>p. p\<lparr>currentBit := 0\<rparr>)
                 (g\<lparr>currentPacket := Some IdlePacket\<rparr>)))"

text \<open>
  Lines 101 to 105: read the bit under the cursor and advance the cursor. The byte index
  is computed, so it is checked against the size of the buffer.
\<close>

definition extractBit :: "SignalGenerator \<Rightarrow> error + bool \<times> SignalGenerator" where
  "extractBit g =
     (case currentPacket g of
        None \<Rightarrow> Inr (False, g)
      | Some r \<Rightarrow>
          if currentBit (packetAt g r) div 8 < MAX_BYTES_IN_PACKET then
            Inr (bufferBit (packetAt g r) (currentBit (packetAt g r)),
                 packetUpd r (\<lambda>p. p\<lparr>currentBit := currentBit p + 1\<rparr>) g)
          else Inl OutOfRange)"

definition getNextBitToSend :: "SignalGenerator \<Rightarrow> error + bool \<times> SignalGenerator" where
  "getNextBitToSend g = extractBit (fetchPacket (finishPacket g))"

text \<open>
  \<open>n\<close> successive calls of the interrupt routine with no other call in between: the bits
  returned, in order, and the state reached.
\<close>

fun getNextBits :: "nat \<Rightarrow> SignalGenerator \<Rightarrow> error + bool list \<times> SignalGenerator" where
  "getNextBits 0 g = Inr ([], g)"
| "getNextBits (Suc n) g =
     (case getNextBitToSend g of
        Inl e \<Rightarrow> Inl e
      | Inr (b, g') \<Rightarrow>
          (case getNextBits n g' of
             Inl e \<Rightarrow> Inl e
           | Inr (bs, g'') \<Rightarrow> Inr (b # bs, g'')))"

section \<open>The generator controller\<close>

definition resetPacket :: "u8 list" where
  "resetPacket = [0x00, 0x00]"

definition idlePacketBytes :: "u8 list" where
  "idlePacketBytes = [0xFF, 0x00]"

text \<open>
  \<^verbatim>\<open>startSignal\<close>: the reset packet with 20 repeats, then the idle packet with 10 repeats.
  The timers it arms afterwards are hardware and are not part of the state.
\<close>

definition startSignal :: "SignalGenerator \<Rightarrow> error + SignalGenerator" where
  "startSignal g =
     (case loadBytePacket resetPacket 2 20 g of
        Inl e \<Rightarrow> Inl e
      | Inr g1 \<Rightarrow> loadBytePacket idlePacketBytes 2 10 g1)"

text \<open>
  Lines 196 to 202 of \<^verbatim>\<open>configureSignal\<close>, on a generator that owns no packet yet:
  \<open>maxPackets\<close> zeroed packets are allocated, at the addresses \<open>0\<close> to \<open>maxPackets - 1\<close>,
  and pushed on the free queue.
\<close>

definition allocatePackets :: "nat \<Rightarrow> SignalGenerator \<Rightarrow> SignalGenerator" where
  "allocatePackets maxPackets g =
     g\<lparr>currentPacket := None,
       packets := (\<lambda>_. zeroPacket),
       availablePackets := availablePackets g @ map PoolPacket [0..<maxPackets]\<rparr>"

text \<open>\<^verbatim>\<open>configureSignal\<close> allocates the packets and starts the signal.\<close>

definition configureSignal :: "nat \<Rightarrow> SignalGenerator \<Rightarrow> error + SignalGenerator" where
  "configureSignal maxPackets g = startSignal (allocatePackets maxPackets g)"

text \<open>Lines 273 to 279: the loop that drains the pending queue, by recursion on the queue.\<close>

fun drainToSend :: "PacketRef list \<Rightarrow> SignalGenerator \<Rightarrow> SignalGenerator" where
  "drainToSend [] g = g"
| "drainToSend (r # rest) g =
     drainToSend rest
       (let g1 = g\<lparr>currentPacket := Some r, toSend := rest\<rparr>;
            g2 = packetUpd r (\<lambda>_. zeroPacket) g1
        in g2\<lparr>availablePackets := availablePackets g2 @ [r]\<rparr>)"

text \<open>\<^verbatim>\<open>stopSignal\<close>, after the timers are stopped: lines 266 to 279.\<close>

definition stopSignal :: "SignalGenerator \<Rightarrow> SignalGenerator" where
  "stopSignal g =
     (let g1 = (case currentPacket g of
                  None \<Rightarrow> g
                | Some r \<Rightarrow>
                    if r \<noteq> IdlePacket
                    then g\<lparr>availablePackets := availablePackets g @ [r], currentPacket := None\<rparr>
                    else g)
      in drainToSend (toSend g1) g1)"

text \<open>
  Modelled from the spec: the constructor of \<^verbatim>\<open>SignalGenerator\<close> is in the header. A new
  generator has empty queues and no current packet; its idle packet holds the frame
  \<open>0xFF 0x00 0xFF\<close>.
\<close>

definition newGenerator :: SignalGenerator where
  "newGenerator =
     \<lparr>packets = (\<lambda>_. zeroPacket),
      idlePacket = fillPacket [0xFF, 0x00, 0xFF] 0 zeroPacket,
      availablePackets = [], toSend = [], currentPacket = None\<rparr>"

text \<open>Sequencing of calls that may fail: the first error ends the sequence.\<close>

definition andThen :: "error + 'a \<Rightarrow> ('a \<Rightarrow> error + 'b) \<Rightarrow> error + 'b" where
  "andThen res f = (case res of Inl e \<Rightarrow> Inl e | Inr x \<Rightarrow> f x)"

text \<open>
  The generator after \<^verbatim>\<open>configureSignal\<close> with two packets on a new generator: the state
  in which the timers are armed.
\<close>

definition bootState :: SignalGenerator where
  "bootState = (case configureSignal 2 newGenerator of Inr g \<Rightarrow> g | Inl _ \<Rightarrow> newGenerator)"

text \<open>
  The configured generator stopped before the first interrupt and started again: the
  state in which the timers are armed the second time.
\<close>

definition restartState :: SignalGenerator where
  "restartState =
     (case startSignal (stopSignal bootState) of Inr g \<Rightarrow> g | Inl _ \<Rightarrow> newGenerator)"

text \<open>
  The generator \<open>g\<close> while the interrupt routine plays the pool packet at address \<open>a\<close>:
  that packet is \<open>p\<close> with its cursor at \<open>c\<close> and \<open>r\<close> repeats left, and \<open>rest\<close> is pending.
\<close>

definition playing ::
  "SignalGenerator \<Rightarrow> nat \<Rightarrow> Packet \<Rightarrow> nat \<Rightarrow> int \<Rightarrow> PacketRef list \<Rightarrow> SignalGenerator" where
  "playing g a p c r rest =
     g\<lparr>packets := (packets g)(a := p\<lparr>numberOfRepeats := r, currentBit := c\<rparr>),
       toSend := rest, currentPacket := Some (PoolPacket a)\<rparr>"

text \<open>
  The number of packets the generator holds: those in the free queue, those pending, and
  the current one unless it is the idle packet.
\<close>

definition packetCount :: "SignalGenerator \<Rightarrow> nat" where
  "packetCount g =
     length (availablePackets g) + length (toSend g)
       + (case currentPacket g of
            None \<Rightarrow> 0
          | Some r \<Rightarrow> if r = IdlePacket then 0 else 1)"

section \<open>Service mode: sampling the ADC and reading a CV\<close>

text \<open>
  The ADC is an input of the program: \<open>adc k\<close> is the \<^verbatim>\<open>int\<close> that the \<open>k\<close>-th call of
  \<^verbatim>\<open>adc1_get_raw\<close> returns. The number of calls made so far is part of the state.
\<close>

type_synonym adc = "nat \<Rightarrow> i32"

text \<open>
  The body of the loop of \<^verbatim>\<open>sampleADCChannel\<close>, on the readings of its iterations in
  order: a reading above zero is added to the \<^verbatim>\<open>uint64_t\<close> sum and counted.
\<close>

fun sampleLoop :: "i32 list \<Rightarrow> u64 \<Rightarrow> int \<Rightarrow> u64 \<times> int" where
  "sampleLoop [] current successfulReads = (current, successfulReads)"
| "sampleLoop (reading # readings) current successfulReads =
     (if 0 <s reading
      then sampleLoop readings (current + scast reading) (successfulReads + 1)
      else sampleLoop readings current successfulReads)"

text \<open>
  \<^verbatim>\<open>sampleADCChannel\<close> from the \<open>t\<close>-th reading on: \<open>sampleCount\<close> readings are taken, and the
  sum is divided by the number of readings above zero unless that number is zero. The
  result comes with the number of readings taken so far.
\<close>

definition sampleADCChannel :: "adc \<Rightarrow> u8 \<Rightarrow> nat \<Rightarrow> u64 \<times> nat" where
  "sampleADCChannel adc sampleCount t =
     (let n = unat sampleCount;
          (current, successfulReads) = sampleLoop (map adc [t..<t + n]) 0 0
      in (if successfulReads \<noteq> 0 then current div word_of_int successfulReads else current,
          t + n))"

text \<open>
  The readings one call of \<^verbatim>\<open>sampleADCChannel\<close> takes, and those of them above zero.
\<close>

definition adcReadings :: "adc \<Rightarrow> u8 \<Rightarrow> nat \<Rightarrow> i32 list" where
  "adcReadings adc sampleCount t = map adc [t..<t + unat sampleCount]"

definition positiveReadings :: "adc \<Rightarrow> u8 \<Rightarrow> nat \<Rightarrow> i32 list" where
  "positiveReadings adc sampleCount t = filter (\<lambda>r. 0 <s r) (adcReadings adc sampleCount t)"

definition CVSampleCount :: u8 where
  "CVSampleCount = 250"

text \<open>
  Modelled from the spec: \<^verbatim>\<open>MotorBoard::getMaxMilliAmps\<close> is not in the source file; the spec
  gives it the type \<open>u16\<close>. The threshold is computed in \<^verbatim>\<open>int\<close> and stored in a
  \<^verbatim>\<open>uint16_t\<close>.
\<close>

definition milliAmpAck :: "16 word \<Rightarrow> error + 16 word" where
  "milliAmpAck maxMilliAmps =
     (if maxMilliAmps = 0 then Inl DivisionByZero
      else Inr (word_of_nat (4096 * 60 div unat maxMilliAmps)))"

text \<open>Arduino's \<^verbatim>\<open>highByte(w)\<close> is \<^verbatim>\<open>(uint8_t)((w) >> 8)\<close>, \<^verbatim>\<open>lowByte(w)\<close> is \<^verbatim>\<open>(uint8_t)((w) & 0xff)\<close>.\<close>

definition highByte :: "int \<Rightarrow> u8" where
  "highByte w = word_of_int (w div 256)"

definition lowByte :: "int \<Rightarrow> u8" where
  "lowByte w = word_of_int w"

text \<open>
  What \<^verbatim>\<open>readCV\<close> sees of the programming track: the number of ADC readings taken, and
  the packets handed to \<^verbatim>\<open>loadBytePacket\<close> with their repeat counts, in order. The calls of
  \<^verbatim>\<open>loadBytePacket\<close> and \<^verbatim>\<open>waitForQueueEmpty\<close> wait for the interrupt routine, which runs
  concurrently; they are taken to return.
\<close>

record ProgTrack =
  adcReads :: nat
  loaded :: "(u8 list \<times> u8) list"

text \<open>The loop of lines 322 to 334, from the bit index \<open>bit'\<close> on (the variable \<^verbatim>\<open>bit\<close>).\<close>

function readCVLoop ::
  "adc \<Rightarrow> 16 word \<Rightarrow> nat \<Rightarrow> u8 list \<Rightarrow> 16 word \<Rightarrow> ProgTrack \<Rightarrow> 16 word \<times> ProgTrack" where
  "readCVLoop adc ack bit' readCVBitPacket cvValue s =
     (if bit' < 8 then
        let packet = readCVBitPacket[2 := 0xE8 + word_of_nat bit'];
            s1 = s\<lparr>loaded := loaded s @ [(take 2 resetPacket, 3), (take 3 packet, 5)]\<rparr>;
            sample = sampleADCChannel adc CVSampleCount (adcReads s1);
            s2 = s1\<lparr>adcReads := snd sample\<rparr>
        in readCVLoop adc ack (bit' + 1) packet
             (if ucast ack < fst sample then cvValue OR push_bit bit' 1 else cvValue) s2
      else (cvValue, s))"
  by pat_completeness auto
termination
  by (relation "measure (\<lambda>(adc, ack, bit', readCVBitPacket, cvValue, s). 8 - bit')") auto

declare readCVLoop.simps [simp del]

text \<open>
  \<^verbatim>\<open>readCV\<close>: the eight bit verifications, then the verification of the byte read; the
  \<^verbatim>\<open>int16_t\<close> result is \<open>-1\<close> when the byte is not verified.
\<close>

definition readCV :: "adc \<Rightarrow> 16 word \<Rightarrow> 16 word \<Rightarrow> ProgTrack \<Rightarrow> error + int \<times> ProgTrack" where
  "readCV adc maxMilliAmps cv s =
     (case milliAmpAck maxMilliAmps of
        Inl e \<Rightarrow> Inl e
      | Inr ack \<Rightarrow>
          let readCVBitPacket =
                [0x78 + (highByte (uint cv - 1) AND 0x03), lowByte (uint cv - 1), 0x00, 0x00];
              verifyCVBitPacket =
                [0x74 + (highByte (uint cv - 1) AND 0x03), lowByte (uint cv - 1), 0x00, 0x00];
              bits = readCVLoop adc ack 0 readCVBitPacket 0 s;
              cvValue = fst bits;
              s1 = snd bits;
              packet = verifyCVBitPacket[2 := ucast (cvValue AND 0xFF)];
              s2 = s1\<lparr>loaded := loaded s1 @ [(take 2 resetPacket, 3), (take 3 packet, 5)]\<rparr>;
              sample = sampleADCChannel adc CVSampleCount (adcReads s2);
              s3 = s2\<lparr>adcReads := snd sample\<rparr>;
              verified = (ucast ack < fst sample)
          in Inr (sint (if \<not> verified then - 1 else cvValue), s3))"

text \<open>
  The acknowledgement as the specification words it: the threshold \<open>4096 * 60 / max_ma\<close>,
  and the test that the average of the \<open>i\<close>-th run of 250 readings taken from the state \<open>s\<close>
  on is above it. \<^verbatim>\<open>readCV\<close> takes nine runs: one for each bit, then one for the byte.
\<close>

definition ackThreshold :: "16 word \<Rightarrow> nat" where
  "ackThreshold maxMilliAmps = 4096 * 60 div unat maxMilliAmps"

definition ackSampled :: "adc \<Rightarrow> 16 word \<Rightarrow> ProgTrack \<Rightarrow> nat \<Rightarrow> bool" where
  "ackSampled adc maxMilliAmps s i =
     (ackThreshold maxMilliAmps
        < unat (fst (sampleADCChannel adc CVSampleCount (adcReads s + 250 * i))))"

text \<open>
  The pool packets the generator owns, in the order free queue, pending queue, current
  packet; the idle packet is not one of them. With a pool of \<open>n\<close> packets, none is duplicated
  and none is lost when this list has no repetition and holds the \<open>n\<close> addresses.
\<close>

definition owned :: "SignalGenerator \<Rightarrow> PacketRef list" where
  "owned g =
     availablePackets g @ toSend g
       @ (case currentPacket g of
            None \<Rightarrow> []
          | Some r \<Rightarrow> if r = IdlePacket then [] else [r])"

definition conserved :: "nat \<Rightarrow> SignalGenerator \<Rightarrow> bool" where
  "conserved n g \<longleftrightarrow> distinct (owned g) \<and> set (owned g) = PoolPacket ` {0..<n}"

text \<open>The cursors of the pending packets, in queue order.\<close>

definition pendingCursors :: "SignalGenerator \<Rightarrow> nat list" where
  "pendingCursors g = map (\<lambda>r. currentBit (packetAt g r)) (toSend g)"

text \<open>Every pending packet has its cursor at 0.\<close>

definition pendingReset :: "SignalGenerator \<Rightarrow> bool" where
  "pendingReset g \<longleftrightarrow> (\<forall>r \<in> set (toSend g). currentBit (packetAt g r) = 0)"

text \<open>
  The states a generator with a pool of \<open>n\<close> packets reaches from its configuration by calls
  of \<^verbatim>\<open>loadPacket\<close> and of the interrupt routine in any order, each call atomic, and by calls
  of \<^verbatim>\<open>stopSignal\<close> made while nothing is pending.
\<close>

inductive reachable :: "nat \<Rightarrow> SignalGenerator \<Rightarrow> bool" for n :: nat where
  configured: "configureSignal n newGenerator = Inr g \<Longrightarrow> reachable n g"
| loaded: "reachable n g \<Longrightarrow> loadPacket data repeats g = Inr g' \<Longrightarrow> reachable n g'"
| ticked: "reachable n g \<Longrightarrow> getNextBitToSend g = Inr (b, g') \<Longrightarrow> reachable n g'"
| stopped: "reachable n g \<Longrightarrow> toSend g = [] \<Longrightarrow> reachable n (stopSignal g)"

section \<open>Checksum\<close>

lemma checksumLoop_fold: "checksumLoop c ds = fold (\<lambda>d acc. acc XOR d) ds c"
  by (induction ds arbitrary: c) simp_all

text \<open>
  The frame vector of lines 123 to 126: for a non-empty payload of \<open>n\<close> bytes it has \<open>n + 1\<close>
  bytes, the payload and then the exclusive or of all \<open>n\<close> payload bytes.
\<close>

lemma appendChecksum_frame:
  assumes "data \<noteq> []"
  shows "appendChecksum data = Inr (data @ [fold (\<lambda>d acc. acc XOR d) data 0])"
proof -
  from assms obtain d ds where data: "data = d # ds"
    by (cases data) auto
  have "checksumLoop d ds = fold (\<lambda>d acc. acc XOR d) ds (0 XOR d)"
    by (simp add: checksumLoop_fold)
  then have "checksumLoop d ds = fold (\<lambda>d acc. acc XOR d) data 0"
    by (simp add: data)
  then show ?thesis
    by (simp add: appendChecksum_def data)
qed

section \<open>The serialized packet\<close>

lemma packetAt_packetUpd_same: "packetAt (packetUpd r f g) r = f (packetAt g r)"
  by (cases r) simp_all

lemma toSend_packetUpd: "toSend (packetUpd r f g) = toSend g"
  by (cases r) simp_all

lemma availablePackets_packetUpd: "availablePackets (packetUpd r f g) = availablePackets g"
  by (cases r) simp_all

lemma currentPacket_packetUpd: "currentPacket (packetUpd r f g) = currentPacket g"
  by (cases r) simp_all

lemma packetAt_toSend_update: "packetAt (g\<lparr>toSend := q\<rparr>) r = packetAt g r"
  by (cases r) simp_all

lemma packetAt_availablePackets_update: "packetAt (g\<lparr>availablePackets := q\<rparr>) r = packetAt g r"
  by (cases r) simp_all

lemma packetAt_currentPacket_update: "packetAt (g\<lparr>currentPacket := c\<rparr>) r = packetAt g r"
  by (cases r) simp_all

lemma loadPacket_returns:
  assumes "availablePackets g = packet # rest" and "2 \<le> length data"
  shows "loadPacket data repeats g =
           Inr ((packetUpd packet (fillPacket (data @ [checksumLoop (hd data) (tl data)]) repeats)
                  (g\<lparr>availablePackets := rest\<rparr>))
                \<lparr>toSend := toSend g @ [packet]\<rparr>)"
proof -
  from assms(2) obtain d ds where "data = d # ds" and "ds \<noteq> []" by (cases data) fastforce+
  with assms show ?thesis
    by (simp add: loadPacket_def appendChecksum_def Let_def toSend_packetUpd)
qed

lemma lastEnqueued_loadPacket:
  assumes "availablePackets g \<noteq> []" and "2 \<le> length data"
  shows "lastEnqueued (loadPacket data repeats g) =
           Some (fillPacket (data @ [checksumLoop (hd data) (tl data)]) repeats
                   (packetAt g (hd (availablePackets g))))"
proof -
  from assms(1) obtain packet rest where "availablePackets g = packet # rest"
    by (cases "availablePackets g") auto
  then show ?thesis
    by (simp add: loadPacket_returns [OF _ assms(2)] lastEnqueued_def
        packetAt_toSend_update packetAt_packetUpd_same packetAt_availablePackets_update)
qed

lemma numberOfBits_fillPacket:
  "numberOfBits (fillPacket frame repeats p) =
     (if length frame = 3 then 49 else if length frame = 4 then 58
      else if length frame = 5 then 67 else 76)"
  by (simp add: fillPacket_def Let_def)

lemma buffer_fillPacket_preamble:
  "buffer (fillPacket frame repeats p) 0 = 0xFF"
  "buffer (fillPacket frame repeats p) 1 = 0xFF"
  "buffer (fillPacket frame repeats p) (Suc 0) = 0xFF"
  "buffer (fillPacket frame repeats p) 2 = 0xFC + bitRead (frame ! 0) 7"
  by (simp_all add: fillPacket_def Let_def)

lemma buffer_fillPacket_outside:
  "10 \<le> i \<Longrightarrow> buffer (fillPacket frame repeats p) i = buffer p i"
  by (simp add: fillPacket_def Let_def)

lemma bitRead_cases: "bitRead d 7 = (if bit d 7 then 1 else 0)"
  by (simp add: bitRead_def and_one_eq bit_iff_and_drop_bit_eq_1)

lemma bitMask_nth: "m < 8 \<Longrightarrow> bitMask ! m = push_bit (7 - m) 1"
proof -
  assume "m < 8"
  then consider "m = 0" | "m = 1" | "m = 2" | "m = 3" | "m = 4" | "m = 5" | "m = 6" | "m = 7"
    by linarith
  then show ?thesis by cases (simp_all add: bitMask_def)
qed

lemma bufferBit_iff: "bufferBit p i \<longleftrightarrow> bit (buffer p (i div 8)) (7 - i mod 8)"
  by (simp add: bufferBit_def bitMask_nth bit_iff_and_push_bit_not_eq_0)

lemma bit_0xFF: "bit (0xFF :: int) n \<longleftrightarrow> n < 8"
proof -
  have "(0xFF :: int) = mask 8" by (simp add: mask_eq_exp_minus_1)
  then show ?thesis by (simp only: bit_mask_iff) simp
qed

lemma fillPacket_preamble_bits:
  assumes "i < 22"
  shows "bufferBit (fillPacket frame repeats p) i"
proof -
  from assms have "i div 8 = 0 \<or> i div 8 = 1 \<or> (i div 8 = 2 \<and> i mod 8 < 6)"
    by presburger
  then consider "i div 8 = 0" | "i div 8 = 1" | "i div 8 = 2" "i mod 8 < 6"
    by argo
  then show ?thesis
  proof cases
    case 1 then show ?thesis by (simp add: bufferBit_iff buffer_fillPacket_preamble bit_0xFF)
  next
    case 2 then show ?thesis by (simp add: bufferBit_iff buffer_fillPacket_preamble bit_0xFF)
  next
    case 3
    then consider "i mod 8 = 0" | "i mod 8 = 1" | "i mod 8 = 2" | "i mod 8 = 3" | "i mod 8 = 4" | "i mod 8 = 5"
      by linarith
    then show ?thesis
      by cases (simp_all add: bufferBit_iff buffer_fillPacket_preamble 3 bitRead_cases)
  qed
qed

lemma fillPacket_start_bit: "\<not> bufferBit (fillPacket frame repeats p) 22"
  by (simp add: bufferBit_iff buffer_fillPacket_preamble bitRead_cases)

lemma fillPacket_last_bit:
  assumes "3 \<le> length frame" "length frame \<le> 6"
  shows "lastBit (fillPacket frame repeats p) \<longleftrightarrow> bit (last frame) 0"
proof -
  from assms have ne: "frame \<noteq> []" by auto
  note last_conv_nth [OF ne, simp]
  from assms consider "length frame = 3" | "length frame = 4" | "length frame = 5" | "length frame = 6"
    by linarith
  then show ?thesis
  proof cases
    case 1 then show ?thesis
      by (simp add: lastBit_def bufferBit_iff fillPacket_def Let_def bit_simps)
  next
    case 2 then show ?thesis
      by (simp add: lastBit_def bufferBit_iff fillPacket_def Let_def bit_simps)
  next
    case 3 then show ?thesis
      by (simp add: lastBit_def bufferBit_iff fillPacket_def Let_def bit_simps)
  next
    case 4 then show ?thesis
      by (simp add: lastBit_def bufferBit_iff fillPacket_def Let_def bit_simps)
  qed
qed

lemma fillPacket_take_6:
  assumes "6 \<le> length frame"
  shows "fillPacket frame repeats p = fillPacket (take 6 frame) repeats p"
  using assms by (simp add: fillPacket_def Let_def)

lemma checksumLoop_payload:
  assumes "data \<noteq> []"
  shows "checksumLoop (hd data) (tl data) = fold (\<lambda>d acc. acc XOR d) data 0"
proof -
  from assms obtain d ds where data: "data = d # ds"
    by (cases data) auto
  show ?thesis by (simp add: data checksumLoop_fold)
qed

lemma loadPacket_reset_numberOfBits:
  "map_option numberOfBits
     (lastEnqueued (loadPacket [0x00, 0x00] 20 (allocatePackets 2 newGenerator))) = Some 49"
proof -
  have "availablePackets (allocatePackets 2 newGenerator) \<noteq> []"
    by (simp add: allocatePackets_def newGenerator_def upt_rec)
  then show ?thesis
    by (simp add: lastEnqueued_loadPacket numberOfBits_fillPacket)
qed

lemma available_allocatePackets:
  "availablePackets (allocatePackets (Suc n) newGenerator) \<noteq> []"
  by (simp add: allocatePackets_def newGenerator_def upt_rec)

text \<open>
  Claim C2, as amended. For a payload of \<open>n\<close> bytes, \<open>n\<close> from 2 to 5, and a free packet
  to take, \<^verbatim>\<open>loadPacket\<close> returns and the packet it has enqueued has
  \<open>numberOfBits = 22 + 9 * (n + 1) = 9 * n + 31\<close>: the values 49, 58, 67 and 76. The
  source does not subtract one.
\<close>

theorem C2_numberOfBits:
  assumes "availablePackets g \<noteq> []" and "2 \<le> length data" and "length data \<le> 5"
  shows "map_option numberOfBits (lastEnqueued (loadPacket data repeats g))
           = Some (22 + 9 * (length data + 1))
         \<and> 22 + 9 * (length data + 1) = 9 * length data + 31
         \<and> 9 * length data + 31 \<in> {49, 58, 67, 76 :: nat}"
proof -
  from assms(2,3) consider "length data = 2" | "length data = 3" | "length data = 4" | "length data = 5"
    by linarith
  then show ?thesis
    by cases (simp_all add: lastEnqueued_loadPacket [OF assms(1,2)] numberOfBits_fillPacket)
qed

theorem C2_numberOfBits_witness:
  "availablePackets (allocatePackets 2 newGenerator) \<noteq> []
   \<and> 2 \<le> length [0x03, 0x3F, 0x80 :: u8] \<and> length [0x03, 0x3F, 0x80 :: u8] \<le> 5
   \<and> map_option numberOfBits
       (lastEnqueued (loadPacket [0x03, 0x3F, 0x80] 0 (allocatePackets 2 newGenerator))) = Some 58"
  using C2_numberOfBits [of "allocatePackets 2 newGenerator" "[0x03, 0x3F, 0x80]" 0]
    available_allocatePackets [of 1]
  by (simp add: numeral_2_eq_2)

text \<open>
  The claim as written gives \<open>22 + 9 * (n + 1) - 1\<close> bits; for the two-byte reset payload
  that is 48, and the source sets 49.
\<close>

theorem C2_counterexample:
  "map_option numberOfBits
     (lastEnqueued (loadPacket [0x00, 0x00] 20 (allocatePackets 2 newGenerator)))
     \<noteq> Some (22 + 9 * (2 + 1) - 1)"
  by (simp add: loadPacket_reset_numberOfBits)

text \<open>
  Claim C1, as amended. For a payload of 2 to 5 bytes and a free packet to take,
  \<^verbatim>\<open>loadPacket\<close> returns, and in the packet it has enqueued the bits 0 to 21 are 1, bit 22
  is 0, and the last valid bit, at position \<open>numberOfBits - 1\<close>, is the least significant
  bit of the checksum byte: the buffer holds no closing 1 bit.
\<close>

theorem C1_preamble_start_and_last_bit:
  assumes "availablePackets g \<noteq> []" and "2 \<le> length data" and "length data \<le> 5"
  shows "\<exists>p. lastEnqueued (loadPacket data repeats g) = Some p
           \<and> (\<forall>i<22. bufferBit p i)
           \<and> \<not> bufferBit p 22
           \<and> (lastBit p \<longleftrightarrow> bit (fold (\<lambda>d acc. acc XOR d) data 0) 0)"
proof -
  let ?frame = "data @ [checksumLoop (hd data) (tl data)]"
  let ?p = "fillPacket ?frame repeats (packetAt g (hd (availablePackets g)))"
  from assms(2) have ne: "data \<noteq> []" by auto
  have enq: "lastEnqueued (loadPacket data repeats g) = Some ?p"
    by (rule lastEnqueued_loadPacket [OF assms(1,2)])
  have pre: "\<forall>i<22. bufferBit ?p i"
    by (simp add: fillPacket_preamble_bits)
  have start: "\<not> bufferBit ?p 22"
    by (rule fillPacket_start_bit)
  from assms(2,3) have "lastBit ?p \<longleftrightarrow> bit (last ?frame) 0"
    by (intro fillPacket_last_bit) simp_all
  then have lastb: "lastBit ?p \<longleftrightarrow> bit (fold (\<lambda>d acc. acc XOR d) data 0) 0"
    by (simp add: checksumLoop_payload [OF ne])
  from enq pre start lastb show ?thesis by blast
qed

theorem C1_preamble_start_and_last_bit_witness:
  "availablePackets (allocatePackets 2 newGenerator) \<noteq> []
   \<and> 2 \<le> length [0xFF, 0x00 :: u8] \<and> length [0xFF, 0x00 :: u8] \<le> 5
   \<and> (\<exists>p. lastEnqueued (loadPacket [0xFF, 0x00] 10 (allocatePackets 2 newGenerator)) = Some p
          \<and> bufferBit p 21 \<and> \<not> bufferBit p 22 \<and> lastBit p)"
proof -
  have "bit (fold (\<lambda>d acc. acc XOR d) [0xFF, 0x00 :: u8] 0) 0"
    by simp
  with C1_preamble_start_and_last_bit [of "allocatePackets 2 newGenerator" "[0xFF, 0x00]" 10]
    available_allocatePackets [of 1]
  show ?thesis
    by (auto simp: numeral_2_eq_2)
qed

text \<open>
  The claim as written asks for a last valid bit of 1. The reset packet that \<^verbatim>\<open>startSignal\<close>
  loads has the payload \<open>0x00 0x00\<close>, the checksum \<open>0x00\<close>, and a last valid bit of 0.
\<close>

theorem C1_counterexample:
  "map_option lastBit
     (lastEnqueued (loadPacket [0x00, 0x00] 20 (allocatePackets 2 newGenerator))) = Some False"
proof -
  have "availablePackets (allocatePackets 2 newGenerator) \<noteq> []"
    by (simp add: allocatePackets_def newGenerator_def upt_rec)
  then show ?thesis
    by (simp add: lastEnqueued_loadPacket fillPacket_last_bit)
qed

text \<open>
  Claim C7, as amended. \<^verbatim>\<open>loadPacket\<close> has no check of the payload length. With a free
  packet to take, a payload of 6 or more bytes is accepted: the call returns, the packet is
  pushed on the pending queue with \<open>numberOfBits = 76\<close>, and it is the packet built from
  the first six payload bytes alone, without the checksum; the bytes of the buffer from
  index 10 on are not written.
\<close>

theorem C7_long_payload_accepted:
  assumes "availablePackets g \<noteq> []" and "6 \<le> length data"
  shows "\<exists>g'. loadPacket data repeats g = Inr g'
           \<and> toSend g' = toSend g @ [hd (availablePackets g)]
           \<and> packetAt g' (hd (availablePackets g))
               = fillPacket (take 6 data) repeats (packetAt g (hd (availablePackets g)))
           \<and> numberOfBits (packetAt g' (hd (availablePackets g))) = 76
           \<and> (\<forall>i\<ge>MAX_BYTES_IN_PACKET.
                 buffer (packetAt g' (hd (availablePackets g))) i
                   = buffer (packetAt g (hd (availablePackets g))) i)"
proof -
  from assms(1) obtain packet rest where av: "availablePackets g = packet # rest"
    by (cases "availablePackets g") auto
  let ?frame = "data @ [checksumLoop (hd data) (tl data)]"
  let ?g' = "(packetUpd packet (fillPacket ?frame repeats) (g\<lparr>availablePackets := rest\<rparr>))
               \<lparr>toSend := toSend g @ [packet]\<rparr>"
  from assms(2) have two: "2 \<le> length data" by simp
  have ret: "loadPacket data repeats g = Inr ?g'"
    by (rule loadPacket_returns [OF av two])
  have "fillPacket ?frame repeats (packetAt g packet)
          = fillPacket (take 6 ?frame) repeats (packetAt g packet)"
    using assms(2) by (intro fillPacket_take_6) simp
  then have pk: "packetAt ?g' packet = fillPacket (take 6 data) repeats (packetAt g packet)"
    using assms(2)
    by (simp add: packetAt_toSend_update packetAt_packetUpd_same packetAt_availablePackets_update)
  have nb: "numberOfBits (packetAt ?g' packet) = 76"
    using assms(2) by (simp add: pk numberOfBits_fillPacket)
  have out: "\<forall>i\<ge>MAX_BYTES_IN_PACKET. buffer (packetAt ?g' packet) i = buffer (packetAt g packet) i"
    by (simp add: pk buffer_fillPacket_outside MAX_BYTES_IN_PACKET_def)
  from ret pk nb out show ?thesis
    by (simp add: av)
qed

theorem C7_long_payload_accepted_witness:
  "availablePackets (allocatePackets 2 newGenerator) \<noteq> []
   \<and> 6 \<le> length [1, 2, 3, 4, 5, 6 :: u8]
   \<and> (\<exists>g'. loadPacket [1, 2, 3, 4, 5, 6] 0 (allocatePackets 2 newGenerator) = Inr g'
          \<and> toSend g' = [PoolPacket 0]
          \<and> numberOfBits (packetAt g' (PoolPacket 0)) = 76)"
  using C7_long_payload_accepted [of "allocatePackets 2 newGenerator" "[1, 2, 3, 4, 5, 6]" 0]
  by (auto simp: allocatePackets_def newGenerator_def upt_rec)

text \<open>
  The claim as written has a payload of six bytes rejected. It is enqueued, with 76 bits.
\<close>

theorem C7_counterexample:
  "map_option numberOfBits
     (lastEnqueued (loadPacket [1, 2, 3, 4, 5, 6] 0 (allocatePackets 2 newGenerator))) = Some 76"
proof -
  have "availablePackets (allocatePackets 2 newGenerator) \<noteq> []"
    by (simp add: allocatePackets_def newGenerator_def upt_rec)
  then show ?thesis
    by (simp add: lastEnqueued_loadPacket numberOfBits_fillPacket)
qed

text \<open>
  A payload of fewer than two bytes makes the source read the vector out of range, at
  \<^verbatim>\<open>data[0]\<close> or at \<^verbatim>\<open>data[2]\<close>.
\<close>

lemma loadPacket_short_payload:
  assumes "availablePackets g \<noteq> []" and "length data < 2"
  shows "loadPacket data repeats g = Inl OutOfRange"
proof -
  from assms(1) obtain packet rest where av: "availablePackets g = packet # rest"
    by (cases "availablePackets g") auto
  from assms(2) consider "data = []" | d where "data = [d]"
    by (cases data; cases "tl data") auto
  then show ?thesis
    by cases (simp_all add: loadPacket_def appendChecksum_def av)
qed

section \<open>The layout of the frame in the buffer\<close>

lemma bit_u8_bound: "bit (w :: u8) n \<Longrightarrow> n < 8"
  using bit_imp_le_length [of w n] by simp

lemma shifted_bytes_add:
  fixes a b :: u8
  shows "push_bit 7 a + drop_bit 2 b = push_bit 7 a OR drop_bit 2 b"
    and "push_bit 6 a + drop_bit 3 b = push_bit 6 a OR drop_bit 3 b"
    and "push_bit 5 a + drop_bit 4 b = push_bit 5 a OR drop_bit 4 b"
  by (rule disjunctive_add; auto simp: bit_simps dest: bit_u8_bound)+

text \<open>The bytes of the buffer after the preamble, for each size of the frame.\<close>

lemma buffer_fillPacket_bytes:
  "buffer (fillPacket frame repeats p) 3 = push_bit 1 (frame ! 0)"
  "buffer (fillPacket frame repeats p) 4 = frame ! 1"
  "buffer (fillPacket frame repeats p) 5 = drop_bit 1 (frame ! 2)"
  "buffer (fillPacket frame repeats p) 6
     = (if length frame = 3 then push_bit 7 (frame ! 2)
        else push_bit 7 (frame ! 2) OR drop_bit 2 (frame ! 3))"
  "3 < length frame \<Longrightarrow> buffer (fillPacket frame repeats p) 7
     = (if length frame = 4 then push_bit 6 (frame ! 3)
        else push_bit 6 (frame ! 3) OR drop_bit 3 (frame ! 4))"
  "4 < length frame \<Longrightarrow> buffer (fillPacket frame repeats p) 8
     = (if length frame = 5 then push_bit 5 (frame ! 4)
        else push_bit 5 (frame ! 4) OR drop_bit 4 (frame ! 5))"
  "5 < length frame \<Longrightarrow> buffer (fillPacket frame repeats p) 9 = push_bit 4 (frame ! 5)"
  by (simp_all add: fillPacket_def Let_def shifted_bytes_add del: push_bit_of_Suc_0)


lemma bit_times_2: "bit ((a :: u8) * 2) n \<longleftrightarrow> 0 < n \<and> n < 8 \<and> bit a (n - 1)"
proof -
  have "a * 2 = push_bit 1 a" by simp
  then show ?thesis by (auto simp only: bit_simps) (simp_all)
qed

lemma less_8_cases:
  "j < 8 \<Longrightarrow> j = 0 \<or> j = 1 \<or> j = 2 \<or> j = 3 \<or> j = 4 \<or> j = 5 \<or> j = 6 \<or> j = (7::nat)"
  by linarith

lemma frame_byte_0:
  assumes "j < 8"
  shows "bufferBit (fillPacket frame repeats p) (23 + j) \<longleftrightarrow> bit (frame ! 0) (7 - j)"
  using less_8_cases [OF assms]
  by (elim disjE; simp add: bufferBit_iff buffer_fillPacket_preamble buffer_fillPacket_bytes
      bitRead_cases bit_simps bit_times_2; simp add: eval_nat_numeral)

lemma frame_byte_1:
  assumes "j < 8"
  shows "bufferBit (fillPacket frame repeats p) (32 + j) \<longleftrightarrow> bit (frame ! 1) (7 - j)"
  using less_8_cases [OF assms]
  by (elim disjE; simp add: bufferBit_iff buffer_fillPacket_bytes)

lemma frame_byte_2:
  assumes "j < 8"
  shows "bufferBit (fillPacket frame repeats p) (41 + j) \<longleftrightarrow> bit (frame ! 2) (7 - j)"
  using less_8_cases [OF assms]
  by (elim disjE; simp add: bufferBit_iff buffer_fillPacket_bytes bit_simps;
      (auto simp: eval_nat_numeral dest: bit_u8_bound)?)

lemma frame_byte_3:
  assumes "j < 8" and "3 < length frame"
  shows "bufferBit (fillPacket frame repeats p) (50 + j) \<longleftrightarrow> bit (frame ! 3) (7 - j)"
  using less_8_cases [OF assms(1)] assms(2)
  by (elim disjE; simp add: bufferBit_iff buffer_fillPacket_bytes bit_simps;
      (auto simp: eval_nat_numeral dest: bit_u8_bound)?)

lemma frame_byte_4:
  assumes "j < 8" and "4 < length frame"
  shows "bufferBit (fillPacket frame repeats p) (59 + j) \<longleftrightarrow> bit (frame ! 4) (7 - j)"
  using less_8_cases [OF assms(1)] assms(2)
  by (elim disjE; simp add: bufferBit_iff buffer_fillPacket_bytes bit_simps;
      (auto simp: eval_nat_numeral dest: bit_u8_bound)?)

lemma frame_byte_5:
  assumes "j < 8" and "5 < length frame"
  shows "bufferBit (fillPacket frame repeats p) (68 + j) \<longleftrightarrow> bit (frame ! 5) (7 - j)"
  using less_8_cases [OF assms(1)] assms(2)
  by (elim disjE; simp add: bufferBit_iff buffer_fillPacket_bytes bit_simps;
      (auto simp: eval_nat_numeral dest: bit_u8_bound)?)


lemma less_6_cases:
  "k < 6 \<Longrightarrow> k = 0 \<or> k = 1 \<or> k = 2 \<or> k = 3 \<or> k = 4 \<or> k = (5::nat)"
  by linarith

text \<open>
  The layout of the serialized frame: byte \<open>k\<close> of the frame is at the bits \<open>23 + 9 * k\<close> to
  \<open>30 + 9 * k\<close>, most significant bit first, after a 0 bit at \<open>22 + 9 * k\<close>.
\<close>

lemma fillPacket_layout:
  assumes "k < length frame" and "k < 6" and "j < 8"
  shows "bufferBit (fillPacket frame repeats p) (23 + 9 * k + j) \<longleftrightarrow> bit (frame ! k) (7 - j)"
  using less_6_cases [OF assms(2)]
proof (elim disjE)
  assume "k = 0"
  with frame_byte_0 [OF assms(3)] show ?thesis by simp
next
  assume "k = 1"
  with frame_byte_1 [OF assms(3), of frame repeats p] show ?thesis by simp
next
  assume "k = 2"
  with frame_byte_2 [OF assms(3), of frame repeats p] show ?thesis by simp
next
  assume k: "k = 3"
  with assms(1) have "3 < length frame" by simp
  from frame_byte_3 [OF assms(3) this, of repeats p] k show ?thesis by simp
next
  assume k: "k = 4"
  with assms(1) have "4 < length frame" by simp
  from frame_byte_4 [OF assms(3) this, of repeats p] k show ?thesis by simp
next
  assume k: "k = 5"
  with assms(1) have "5 < length frame" by simp
  from frame_byte_5 [OF assms(3) this, of repeats p] k show ?thesis by simp
qed

lemma fillPacket_separators:
  assumes "k < length frame" and "k < 6"
  shows "\<not> bufferBit (fillPacket frame repeats p) (22 + 9 * k)"
  using less_6_cases [OF assms(2)] assms(1)
  by (elim disjE; simp add: bufferBit_iff buffer_fillPacket_preamble buffer_fillPacket_bytes
      bitRead_cases bit_simps bit_times_2; (auto simp: eval_nat_numeral dest: bit_u8_bound)?)

text \<open>The bit after the last byte of the frame is 0 in the buffer: no closing 1 bit is stored.\<close>

lemma fillPacket_no_end_bit:
  assumes "3 \<le> length frame" and "length frame \<le> 6"
  shows "\<not> bufferBit (fillPacket frame repeats p) (22 + 9 * length frame)"
proof -
  from assms have "length frame = 3 \<or> length frame = 4 \<or> length frame = 5 \<or> length frame = 6"
    by linarith
  then show ?thesis
    by (elim disjE; simp add: bufferBit_iff buffer_fillPacket_bytes bit_simps;
        (auto simp: eval_nat_numeral dest: bit_u8_bound)?)
qed

text \<open>
  For a payload of 2 to 5 bytes, the packet that \<^verbatim>\<open>loadPacket\<close> enqueues holds the payload
  bytes and then the checksum, the exclusive or of the payload, at the frame position
  \<open>length data\<close>.
\<close>

lemma loadPacket_layout:
  assumes "availablePackets g \<noteq> []" and "2 \<le> length data" and "length data \<le> 5" and "j < 8"
  shows "\<exists>p. lastEnqueued (loadPacket data repeats g) = Some p
           \<and> (\<forall>k < length data. bufferBit p (23 + 9 * k + j) \<longleftrightarrow> bit (data ! k) (7 - j))
           \<and> (bufferBit p (23 + 9 * length data + j)
                \<longleftrightarrow> bit (fold (\<lambda>d acc. acc XOR d) data 0) (7 - j))"
proof -
  let ?frame = "data @ [checksumLoop (hd data) (tl data)]"
  let ?p = "fillPacket ?frame repeats (packetAt g (hd (availablePackets g)))"
  from assms(2) have ne: "data \<noteq> []" by auto
  have enq: "lastEnqueued (loadPacket data repeats g) = Some ?p"
    by (rule lastEnqueued_loadPacket [OF assms(1,2)])
  have bytes: "bufferBit ?p (23 + 9 * k + j) \<longleftrightarrow> bit (?frame ! k) (7 - j)" if "k \<le> length data" for k
    using that assms(3) by (intro fillPacket_layout [OF _ _ assms(4)]) simp_all
  have payload: "\<forall>k < length data. bufferBit ?p (23 + 9 * k + j) \<longleftrightarrow> bit (data ! k) (7 - j)"
    using bytes by (simp add: nth_append)
  have "bufferBit ?p (23 + 9 * length data + j) \<longleftrightarrow> bit (?frame ! length data) (7 - j)"
    by (rule bytes) simp
  then have checksum: "bufferBit ?p (23 + 9 * length data + j)
                \<longleftrightarrow> bit (fold (\<lambda>d acc. acc XOR d) data 0) (7 - j)"
    by (simp add: checksumLoop_payload [OF ne])
  from enq payload checksum show ?thesis by blast
qed


lemma bufferBit_frameBit: "bufferBit p i = frameBit p i"
  by (simp add: bufferBit_iff frameBit_def)

text \<open>
  Claim C3, as amended. For a payload of \<open>n\<close> bytes, \<open>n\<close> from 2 to 5, and a free packet to
  take, the frame of \<^verbatim>\<open>loadPacket\<close> is the payload followed by the exclusive or of the \<open>n\<close>
  payload bytes, and the packet enqueued holds these \<open>n + 1\<close> bytes: \<open>numberOfBits\<close> is
  \<open>22 + 9 * (n + 1)\<close>, byte \<open>k\<close> of the payload is at the bits \<open>23 + 9 * k\<close> to \<open>30 + 9 * k\<close>
  of the buffer, most significant bit first, the checksum is at the frame position \<open>n\<close>, and
  each of the \<open>n + 1\<close> bytes follows a 0 bit.
\<close>

theorem C3_frame_serialized:
  assumes "availablePackets g \<noteq> []" and "2 \<le> length data" and "length data \<le> 5"
  shows "appendChecksum data = Inr (data @ [fold (\<lambda>d acc. acc XOR d) data 0])
         \<and> (\<exists>p. lastEnqueued (loadPacket data repeats g) = Some p
               \<and> numberOfBits p = 22 + 9 * (length data + 1)
               \<and> (\<forall>k < length data. \<forall>j < 8.
                     frameBit p (23 + 9 * k + j) \<longleftrightarrow> bit (data ! k) (7 - j))
               \<and> (\<forall>j < 8. frameBit p (23 + 9 * length data + j)
                     \<longleftrightarrow> bit (fold (\<lambda>d acc. acc XOR d) data 0) (7 - j))
               \<and> (\<forall>k \<le> length data. \<not> frameBit p (22 + 9 * k)))"
proof -
  let ?x = "fold (\<lambda>d acc. acc XOR d) data 0"
  let ?frame = "data @ [?x]"
  let ?p = "fillPacket ?frame repeats (packetAt g (hd (availablePackets g)))"
  from assms(2) have ne: "data \<noteq> []" by auto
  have frame: "appendChecksum data = Inr ?frame"
    by (rule appendChecksum_frame [OF ne])
  have enq: "lastEnqueued (loadPacket data repeats g) = Some ?p"
    using lastEnqueued_loadPacket [OF assms(1,2), of repeats]
    by (simp add: checksumLoop_payload [OF ne])
  from assms(2,3) have "length data = 2 \<or> length data = 3 \<or> length data = 4 \<or> length data = 5"
    by linarith
  then have nb: "numberOfBits ?p = 22 + 9 * (length data + 1)"
    by (elim disjE; simp add: numberOfBits_fillPacket)
  have bytes: "frameBit ?p (23 + 9 * k + j) \<longleftrightarrow> bit (?frame ! k) (7 - j)"
    if "k \<le> length data" and "j < 8" for k j
  proof -
    from that(1) assms(3) have "k < length ?frame" and "k < 6" by simp_all
    from fillPacket_layout [OF this that(2)] show ?thesis
      by (simp only: bufferBit_frameBit)
  qed
  have payload: "\<forall>k < length data. \<forall>j < 8. frameBit ?p (23 + 9 * k + j) \<longleftrightarrow> bit (data ! k) (7 - j)"
    using bytes by (simp add: nth_append)
  have checksum: "\<forall>j < 8. frameBit ?p (23 + 9 * length data + j) \<longleftrightarrow> bit ?x (7 - j)"
    using bytes [of "length data"] by simp
  have seps: "\<forall>k \<le> length data. \<not> frameBit ?p (22 + 9 * k)"
  proof (intro allI impI)
    fix k assume "k \<le> length data"
    with assms(3) have "k < length ?frame" and "k < 6" by simp_all
    show "\<not> frameBit ?p (22 + 9 * k)"
      by (rule fillPacket_separators [OF \<open>k < length ?frame\<close> \<open>k < 6\<close>, unfolded bufferBit_frameBit])
  qed
  from frame enq nb payload checksum seps show ?thesis by blast
qed

theorem C3_frame_serialized_witness:
  "availablePackets (allocatePackets 2 newGenerator) \<noteq> []
   \<and> 2 \<le> length [0x03, 0x3F, 0x80 :: u8] \<and> length [0x03, 0x3F, 0x80 :: u8] \<le> 5
   \<and> appendChecksum [0x03, 0x3F, 0x80] = Inr [0x03, 0x3F, 0x80, 0xBC]
   \<and> (\<exists>p. lastEnqueued (loadPacket [0x03, 0x3F, 0x80] 0 (allocatePackets 2 newGenerator)) = Some p
          \<and> numberOfBits p = 58
          \<and> frameBit p 50 \<and> \<not> frameBit p 51 \<and> frameBit p 52 \<and> frameBit p 53
          \<and> frameBit p 54 \<and> frameBit p 55 \<and> \<not> frameBit p 56 \<and> \<not> frameBit p 57
          \<and> \<not> frameBit p 49)"
proof -
  have av: "availablePackets (allocatePackets 2 newGenerator) \<noteq> []"
    by (simp add: allocatePackets_def newGenerator_def upt_rec)
  have x: "fold (\<lambda>d acc. acc XOR d) [0x03, 0x3F, 0x80 :: u8] 0 = 0xBC" by simp
  have l2: "2 \<le> length [0x03, 0x3F, 0x80 :: u8]" and l5: "length [0x03, 0x3F, 0x80 :: u8] \<le> 5"
    by simp_all
  note inst = C3_frame_serialized [OF av l2 l5, of 0, unfolded x]
  from inst obtain p where
    enq: "lastEnqueued (loadPacket [0x03, 0x3F, 0x80] 0 (allocatePackets 2 newGenerator)) = Some p"
    and nb: "numberOfBits p = 22 + 9 * (length [0x03, 0x3F, 0x80 :: u8] + 1)"
    and cs: "\<forall>j < 8. frameBit p (23 + 9 * length [0x03, 0x3F, 0x80 :: u8] + j) \<longleftrightarrow> bit (0xBC :: u8) (7 - j)"
    and sep: "\<forall>k \<le> length [0x03, 0x3F, 0x80 :: u8]. \<not> frameBit p (22 + 9 * k)"
    by auto
  from cs [rule_format, of 0] cs [rule_format, of 1] cs [rule_format, of 2] cs [rule_format, of 3]
    cs [rule_format, of 4] cs [rule_format, of 5] cs [rule_format, of 6] cs [rule_format, of 7]
  have bits: "frameBit p 50 \<and> \<not> frameBit p 51 \<and> frameBit p 52 \<and> frameBit p 53
          \<and> frameBit p 54 \<and> frameBit p 55 \<and> \<not> frameBit p 56 \<and> \<not> frameBit p 57"
    by simp
  from sep [rule_format, of 3] have s49: "\<not> frameBit p 49" by simp
  from inst have fr: "appendChecksum [0x03, 0x3F, 0x80] = Inr [0x03, 0x3F, 0x80, 0xBC]" by simp
  from nb have "numberOfBits p = 58" by simp
  with av enq bits s49 fr show ?thesis by auto
qed

text \<open>
  The claim as written speaks of every non-empty payload. A payload of six bytes and one of
  seven bytes with the same first six bytes give the same packet, of 22 + 9 * 6 bits: the
  frame in the buffer has six bytes and no checksum. A payload of one byte is read out of
  range at \<^verbatim>\<open>data[2]\<close>.
\<close>

theorem C3_counterexample:
  "lastEnqueued (loadPacket [1, 2, 3, 4, 5, 6] 0 (allocatePackets 2 newGenerator))
     = lastEnqueued (loadPacket [1, 2, 3, 4, 5, 6, 0xFF] 0 (allocatePackets 2 newGenerator))
   \<and> map_option numberOfBits
       (lastEnqueued (loadPacket [1, 2, 3, 4, 5, 6] 0 (allocatePackets 2 newGenerator)))
       = Some (22 + 9 * 6)
   \<and> loadPacket [0x55] 0 (allocatePackets 2 newGenerator) = Inl OutOfRange"
proof -
  have av: "availablePackets (allocatePackets 2 newGenerator) \<noteq> []"
    by (simp add: allocatePackets_def newGenerator_def upt_rec)
  have six: "lastEnqueued (loadPacket [1, 2, 3, 4, 5, 6] 0 (allocatePackets 2 newGenerator))
      = Some (fillPacket [1, 2, 3, 4, 5, 6] 0
                (packetAt (allocatePackets 2 newGenerator)
                   (hd (availablePackets (allocatePackets 2 newGenerator)))))"
    using av by (simp add: lastEnqueued_loadPacket fillPacket_take_6 [of "[1, 2, 3, 4, 5, 6, c]" for c])
  have seven: "lastEnqueued (loadPacket [1, 2, 3, 4, 5, 6, 0xFF] 0 (allocatePackets 2 newGenerator))
      = Some (fillPacket [1, 2, 3, 4, 5, 6] 0
                (packetAt (allocatePackets 2 newGenerator)
                   (hd (availablePackets (allocatePackets 2 newGenerator)))))"
    using av by (simp add: lastEnqueued_loadPacket fillPacket_take_6 [of "[1, 2, 3, 4, 5, 6, 0xFF, c]" for c])
  have short: "loadPacket [0x55] 0 (allocatePackets 2 newGenerator) = Inl OutOfRange"
    using av by (intro loadPacket_short_payload) simp_all
  from six seven short show ?thesis
    by (simp add: numberOfBits_fillPacket)
qed


section \<open>Playing a packet\<close>

lemma bufferBit_fields [simp]:
  "bufferBit (p\<lparr>currentBit := c\<rparr>) i = bufferBit p i"
  "bufferBit (p\<lparr>numberOfRepeats := r\<rparr>) i = bufferBit p i"
  by (simp_all add: bufferBit_def)

lemma tick_mid:
  assumes "c < numberOfBits p" and "numberOfBits p \<le> 8 * MAX_BYTES_IN_PACKET"
  shows "getNextBitToSend (playing g a p c r rest) = Inr (bufferBit p c, playing g a p (c + 1) r rest)"
proof -
  from assms have "c div 8 < MAX_BYTES_IN_PACKET" by (simp add: MAX_BYTES_IN_PACKET_def) 
  with assms(1) show ?thesis
    by (simp add: getNextBitToSend_def finishPacket_def fetchPacket_def extractBit_def playing_def)
qed

lemma tick_repeat:
  assumes "0 < r" and "1 \<le> numberOfBits p"
  shows "getNextBitToSend (playing g a p (numberOfBits p) r rest)
           = Inr (bufferBit p 0, playing g a p 1 (r - 1) rest)"
  using assms
  by (simp add: getNextBitToSend_def finishPacket_def fetchPacket_def extractBit_def playing_def
      MAX_BYTES_IN_PACKET_def)

lemma tick_fetch:
  assumes "currentPacket g = None" and "toSend g = PoolPacket a # rest"
    and "currentBit (packets g a) = 0"
  shows "getNextBitToSend g
           = Inr (bufferBit (packets g a) 0,
                  playing g a (packets g a) 1 (numberOfRepeats (packets g a)) rest)"
  using assms
  by (simp add: getNextBitToSend_def finishPacket_def fetchPacket_def extractBit_def playing_def
      MAX_BYTES_IN_PACKET_def)

lemma finishPacket_release:
  "finishPacket (playing g a p (numberOfBits p) 0 rest)
     = (playing g a p (numberOfBits p) 0 rest)
         \<lparr>availablePackets := availablePackets g @ [PoolPacket a], currentPacket := None\<rparr>"
  by (simp add: finishPacket_def playing_def)

lemma getNextBits_snoc:
  assumes "getNextBits n g = Inr (bs, g')" and "getNextBitToSend g' = Inr (b, g'')"
  shows "getNextBits (Suc n) g = Inr (bs @ [b], g'')"
  using assms
proof (induction n arbitrary: g bs)
  case 0
  then show ?case by simp
next
  case (Suc n)
  from Suc.prems(1) obtain b0 g0 bs0 where
    first: "getNextBitToSend g = Inr (b0, g0)" and
    rest: "getNextBits n g0 = Inr (bs0, g')" and bs: "bs = b0 # bs0"
    by (auto split: sum.splits prod.splits)
  from Suc.IH [OF rest Suc.prems(2)] have "getNextBits (Suc n) g0 = Inr (bs0 @ [b], g'')" .
  with first bs show ?case by simp
qed

lemma play_closed_form:
  assumes cur: "currentPacket g = None" and pend: "toSend g = PoolPacket a # rest"
    and cb: "currentBit (packets g a) = 0"
    and b1: "1 \<le> numberOfBits (packets g a)"
    and b2: "numberOfBits (packets g a) \<le> 8 * MAX_BYTES_IN_PACKET"
    and r0: "0 \<le> numberOfRepeats (packets g a)"
    and m: "Suc m \<le> (nat (numberOfRepeats (packets g a)) + 1) * numberOfBits (packets g a)"
  shows "getNextBits (Suc m) g
           = Inr (map (\<lambda>j. bufferBit (packets g a) (j mod numberOfBits (packets g a))) [0..<Suc m],
                  playing g a (packets g a) (m mod numberOfBits (packets g a) + 1)
                    (numberOfRepeats (packets g a) - int (m div numberOfBits (packets g a))) rest)"
  using m
proof (induction m)
  case 0
  have "getNextBits (Suc 0) g = Inr ([bufferBit (packets g a) 0],
          playing g a (packets g a) 1 (numberOfRepeats (packets g a)) rest)"
    by (simp add: tick_fetch [OF cur pend cb])
  with b1 show ?case by simp
next
  case (Suc m)
  let ?p = "packets g a"
  let ?b = "numberOfBits ?p"
  let ?r = "numberOfRepeats ?p"
  from Suc.prems have le: "Suc m \<le> (nat ?r + 1) * ?b" by simp
  note IH = Suc.IH [OF le]
  show ?case
  proof (cases "m mod ?b + 1 < ?b")
    case True
    have step: "getNextBitToSend (playing g a ?p (m mod ?b + 1) (?r - int (m div ?b)) rest)
                  = Inr (bufferBit ?p (m mod ?b + 1),
                         playing g a ?p (m mod ?b + 1 + 1) (?r - int (m div ?b)) rest)"
      by (rule tick_mid [OF True b2])
    from True have md: "Suc m mod ?b = m mod ?b + 1" and dv: "Suc m div ?b = m div ?b"
      by (simp_all add: mod_Suc div_Suc)
    from getNextBits_snoc [OF IH step] show ?thesis
      by (simp add: md dv)
  next
    case False
    with b1 have full: "m mod ?b + 1 = ?b"
      by (metis One_nat_def Suc_eq_plus1 Suc_leI le_neq_implies_less mod_less_divisor less_eq_Suc_le)
    then have md: "Suc m mod ?b = 0" and dv: "Suc m div ?b = m div ?b + 1"
      by (simp_all add: mod_Suc div_Suc)
    have "Suc m = (m div ?b + 1) * ?b"
      using md dv by (metis add.right_neutral div_mult_mod_eq)
    with Suc.prems have "(m div ?b + 1) * ?b < (nat ?r + 1) * ?b" by linarith
    then have "m div ?b + 1 < nat ?r + 1" by (simp only: mult_less_cancel2)
    then have "m div ?b < nat ?r" by simp
    then have pos: "0 < ?r - int (m div ?b)" by linarith
    have step: "getNextBitToSend (playing g a ?p ?b (?r - int (m div ?b)) rest)
                  = Inr (bufferBit ?p 0, playing g a ?p 1 (?r - int (m div ?b) - 1) rest)"
      by (rule tick_repeat [OF pos b1])
    from getNextBits_snoc [OF IH [unfolded full] step] show ?thesis
      by (simp add: md dv algebra_simps)
  qed
qed

lemma map_mod_replicate:
  "map (\<lambda>j. f (j mod b)) [0..<n * b] = concat (replicate n (map f [0..<b]))"
proof (induction n)
  case 0
  then show ?case by simp
next
  case (Suc n)
  have "[0..<Suc n * b] = [0..<n * b] @ [n * b..<n * b + b]"
    using upt_add_eq_append [of 0 "n * b" b] by (simp add: add.commute)
  moreover have "map (\<lambda>j. f (j mod b)) [n * b..<n * b + b] = map f [0..<b]"
    by (rule nth_equalityI) simp_all
  moreover have "concat (replicate (Suc n) (map f [0..<b]))
                   = concat (replicate n (map f [0..<b])) @ map f [0..<b]"
    using replicate_append_same [of n "map f [0..<b]"] by (metis concat.simps(2) concat_append replicate_Suc append_Nil2 concat.simps(1))
  ultimately show ?case
    using Suc.IH by simp
qed

lemma getNextBitToSend_finishPacket:
  assumes "currentPacket (finishPacket g) = None"
  shows "getNextBitToSend g = getNextBitToSend (finishPacket g)"
proof -
  from assms have "finishPacket (finishPacket g) = finishPacket g"
    by (simp add: finishPacket_def [of "finishPacket g"])
  then show ?thesis by (simp add: getNextBitToSend_def)
qed

lemma getNextBits_finishPacket:
  assumes "currentPacket (finishPacket g) = None"
  shows "getNextBits (Suc n) g = getNextBits (Suc n) (finishPacket g)"
  by (simp add: getNextBitToSend_finishPacket [OF assms])

lemma currentPacket_playing: "currentPacket (playing g a p c r rest) = Some (PoolPacket a)"
  by (simp add: playing_def)

lemma availablePackets_playing: "availablePackets (playing g a p c r rest) = availablePackets g"
  by (simp add: playing_def)

section \<open>The generator after configuration\<close>

lemma upt_0_2: "[0..<2] = [0, 1]"
  by (simp add: numeral_2_eq_2)

lemma allocate_2:
  "allocatePackets 2 newGenerator
     = newGenerator\<lparr>availablePackets := [PoolPacket 0, PoolPacket 1]\<rparr>"
  by (simp add: allocatePackets_def newGenerator_def upt_0_2)

lemma configureSignal_bootState: "configureSignal 2 newGenerator = Inr bootState"
  unfolding bootState_def configureSignal_def allocate_2
  by (simp add: startSignal_def loadBytePacket_def
      loadPacket_def appendChecksum_def newGenerator_def
      resetPacket_def idlePacketBytes_def Let_def)

lemma bootState_fields:
  "currentPacket bootState = None"
  "toSend bootState = [PoolPacket 0, PoolPacket 1]"
  "availablePackets bootState = []"
  "currentBit (packets bootState 0) = 0"
  "numberOfBits (packets bootState 0) = 49"
  "numberOfRepeats (packets bootState 0) = 20"
  "currentBit (packets bootState 1) = 0"
  "numberOfBits (packets bootState 1) = 49"
  "numberOfRepeats (packets bootState 1) = 10"
  unfolding bootState_def configureSignal_def allocate_2
  by (simp_all add: startSignal_def loadBytePacket_def
      loadPacket_def appendChecksum_def newGenerator_def
      resetPacket_def idlePacketBytes_def Let_def fillPacket_def)

lemma finishPacket_idle: "currentPacket g = None \<Longrightarrow> finishPacket g = g"
  by (simp add: finishPacket_def)

lemma play_all:
  assumes fin: "finishPacket g0 = g"
    and cur: "currentPacket g = None" and pend: "toSend g = PoolPacket a # rest"
    and cb: "currentBit (packets g a) = 0"
    and b: "numberOfBits (packets g a) = b" and b1: "1 \<le> b" and b2: "b \<le> 8 * MAX_BYTES_IN_PACKET"
    and r: "numberOfRepeats (packets g a) = r" and r0: "0 \<le> r"
  shows "getNextBits ((nat r + 1) * b) g0
           = Inr (map (\<lambda>j. bufferBit (packets g a) (j mod b)) [0..<(nat r + 1) * b],
                  playing g a (packets g a) b 0 rest)"
proof -
  from b1 obtain m where m: "(nat r + 1) * b = Suc m"
    by (cases "(nat r + 1) * b") auto
  then have le: "Suc m \<le> (nat (numberOfRepeats (packets g a)) + 1) * numberOfBits (packets g a)"
    by (simp add: b r)
  from b1 have cb': "b - 1 < b" and bpos: "b \<noteq> 0" by simp_all
  have m_eq: "m = (b - 1) + nat r * b" using m b1 by simp
  have "m mod b = (b - 1) mod b" unfolding m_eq by (rule mod_mult_self1)
  with cb' have md: "m mod b = b - 1" by simp
  have "m div b = nat r + (b - 1) div b" unfolding m_eq by (rule div_mult_self1 [OF bpos])
  with cb' have dv: "m div b = nat r" by simp
  from cur fin have e: "getNextBits (Suc m) g0 = getNextBits (Suc m) g"
    using getNextBits_finishPacket [of g0 m] by simp
  have b1': "1 \<le> numberOfBits (packets g a)" and b2': "numberOfBits (packets g a) \<le> 8 * MAX_BYTES_IN_PACKET"
    and r0': "0 \<le> numberOfRepeats (packets g a)"
    using b b1 b2 r r0 by simp_all
  note pcf = play_closed_form [OF cur pend cb b1' b2' r0' le, unfolded b r]
  have st: "m mod b + 1 = b" using md b1 by simp
  have rr: "r - int (m div b) = 0" using dv r0 by simp
  show ?thesis
    using pcf by (simp only: m e st rr)
qed

text \<open>
  Playing a packet dequeued with its cursor at 0. Let a call of \<^verbatim>\<open>getNextBitToSend\<close> on \<open>g0\<close> make the pool packet at address
  \<open>a\<close> current: after the release step of lines 75 to 88 (state \<open>g\<close>) there is no current
  packet and the packet is first in the pending queue, with its cursor at 0, \<open>b\<close> bits,
  \<open>1 \<le> b\<close>, inside the buffer, and \<open>r \<ge> 0\<close> repeats. Then the first \<open>k\<close> calls, for every
  \<open>k\<close> up to \<open>(r + 1) * b\<close>, return the bits \<open>j mod b\<close> of the packet for \<open>j < k\<close>, and leave
  the packet current and the free queue as it was; the \<open>(r + 1) * b\<close> calls together return
  the \<open>b\<close> bits of the packet \<open>r + 1\<close> times; and the release step of the call after them
  pushes the packet on the free queue and clears the current packet.
\<close>

lemma packet_played_repeats_plus_one_times:
  assumes fin: "finishPacket g0 = g"
    and cur: "currentPacket g = None" and pend: "toSend g = PoolPacket a # rest"
    and cb: "currentBit (packets g a) = 0"
    and b: "numberOfBits (packets g a) = b" and b1: "1 \<le> b" and b2: "b \<le> 8 * MAX_BYTES_IN_PACKET"
    and r: "numberOfRepeats (packets g a) = r" and r0: "0 \<le> r"
  shows "(\<forall>k. 1 \<le> k \<and> k \<le> (nat r + 1) * b \<longrightarrow>
            (\<exists>g'. getNextBits k g0
                     = Inr (map (\<lambda>j. frameBit (packets g a) (j mod b)) [0..<k], g')
                 \<and> currentPacket g' = Some (PoolPacket a)
                 \<and> availablePackets g' = availablePackets g))
         \<and> (\<exists>g'. getNextBits ((nat r + 1) * b) g0
                     = Inr (concat (replicate (nat r + 1) (map (frameBit (packets g a)) [0..<b])), g')
                 \<and> finishPacket g'
                     = g'\<lparr>availablePackets := availablePackets g @ [PoolPacket a],
                          currentPacket := None\<rparr>)"
proof (intro conjI allI impI)
  fix k
  assume k: "1 \<le> k \<and> k \<le> (nat r + 1) * b"
  then obtain m where km: "k = Suc m" by (cases k) auto
  from k km have le: "Suc m \<le> (nat (numberOfRepeats (packets g a)) + 1) * numberOfBits (packets g a)"
    by (simp add: b r)
  from cur fin have "getNextBits (Suc m) g0 = getNextBits (Suc m) g"
    using getNextBits_finishPacket [of g0 m] by simp
  with play_closed_form [OF cur pend cb _ _ _ le] b b1 b2 r r0 km
  show "\<exists>g'. getNextBits k g0
                = Inr (map (\<lambda>j. frameBit (packets g a) (j mod b)) [0..<k], g')
            \<and> currentPacket g' = Some (PoolPacket a)
            \<and> availablePackets g' = availablePackets g"
    by (simp add: currentPacket_playing availablePackets_playing bufferBit_frameBit)
next
  note run = play_all [OF fin cur pend cb b b1 b2 r r0, unfolded bufferBit_frameBit]
  have rel: "finishPacket (playing g a (packets g a) b 0 rest)
          = (playing g a (packets g a) b 0 rest)
              \<lparr>availablePackets := availablePackets g @ [PoolPacket a], currentPacket := None\<rparr>"
    using finishPacket_release [of g a "packets g a" rest] by (simp add: b)
  from run rel
  show "\<exists>g'. getNextBits ((nat r + 1) * b) g0
                = Inr (concat (replicate (nat r + 1) (map (frameBit (packets g a)) [0..<b])), g')
            \<and> finishPacket g'
                = g'\<lparr>availablePackets := availablePackets g @ [PoolPacket a],
                     currentPacket := None\<rparr>"
    by (simp only: map_mod_replicate) blast
qed



section \<open>Stopping the signal\<close>

lemma drainToSend_toSend: "toSend g = q \<Longrightarrow> toSend (drainToSend q g) = []"
proof (induction q arbitrary: g)
  case Nil
  then show ?case by simp
next
  case (Cons r rest)
  show ?case
    by (simp add: Let_def) (rule Cons.IH, simp add: toSend_packetUpd)
qed

lemma drainToSend_currentPacket:
  "q \<noteq> [] \<Longrightarrow> currentPacket (drainToSend q g) = Some (last q)"
proof (induction q arbitrary: g)
  case Nil
  then show ?case by simp
next
  case (Cons r rest)
  show ?case
  proof (cases "rest = []")
    case True
    then show ?thesis by (simp add: Let_def currentPacket_packetUpd)
  next
    case False
    with Cons.IH show ?thesis by (simp add: Let_def)
  qed
qed

lemma drainToSend_availablePackets:
  "availablePackets (drainToSend q g) = availablePackets g @ q"
  by (induction q arbitrary: g) (simp_all add: Let_def availablePackets_packetUpd)

lemma stopSignal_toSend: "toSend (stopSignal g) = []"
  by (simp add: stopSignal_def Let_def drainToSend_toSend)

lemma stopSignal_no_pending:
  assumes "toSend g = []"
  shows "currentPacket (stopSignal g)
           = (if currentPacket g = Some IdlePacket then Some IdlePacket else None)"
  using assms by (simp add: stopSignal_def Let_def split: option.splits)

lemma stopSignal_pending:
  assumes "toSend g \<noteq> []"
  shows "currentPacket (stopSignal g) = Some (last (toSend g))"
    and "availablePackets (stopSignal g)
           = availablePackets g
             @ (case currentPacket g of None \<Rightarrow> [] | Some r \<Rightarrow> if r \<noteq> IdlePacket then [r] else [])
             @ toSend g"
  using assms
  by (simp_all add: stopSignal_def Let_def drainToSend_currentPacket drainToSend_availablePackets
      split: option.splits)

lemma getNextBits_add:
  "getNextBits (m + n) g
     = (case getNextBits m g of
          Inl e \<Rightarrow> Inl e
        | Inr (bs, g') \<Rightarrow>
            (case getNextBits n g' of
               Inl e \<Rightarrow> Inl e
             | Inr (bs', g'') \<Rightarrow> Inr (bs @ bs', g'')))"
  by (induction m arbitrary: g) (auto split: sum.splits prod.splits)

lemma tick_release_idle:
  "\<exists>bit g'. getNextBitToSend (playing g a p (numberOfBits p) 0 []) = Inr (bit, g')
      \<and> currentPacket g' = Some IdlePacket \<and> toSend g' = []
      \<and> availablePackets g' = availablePackets g @ [PoolPacket a]"
  by (simp add: getNextBitToSend_def finishPacket_def fetchPacket_def extractBit_def playing_def
      MAX_BYTES_IN_PACKET_def)

lemma boot_reset_played:
  "\<exists>bs. getNextBits 1029 bootState
          = Inr (bs, playing bootState 0 (packets bootState 0) 49 0 [PoolPacket 1])"
proof -
  have fin: "finishPacket bootState = bootState"
    by (rule finishPacket_idle) (rule bootState_fields)
  have b2: "(49::nat) \<le> 8 * MAX_BYTES_IN_PACKET"
    by (simp add: MAX_BYTES_IN_PACKET_def)
  from play_all [OF fin bootState_fields(1) bootState_fields(2) bootState_fields(4)
      bootState_fields(5) _ b2 bootState_fields(6)]
  show ?thesis by simp
qed

lemma boot_idle_played:
  "\<exists>bs g. getNextBits 539 (playing bootState 0 (packets bootState 0) 49 0 [PoolPacket 1])
          = Inr (bs, playing g 1 (packets bootState 1) 49 0 [])
        \<and> availablePackets g = [PoolPacket 0]"
proof -
  let ?s = "playing bootState 0 (packets bootState 0) 49 0 [PoolPacket 1]"
  let ?g = "?s\<lparr>availablePackets := availablePackets bootState @ [PoolPacket 0], currentPacket := None\<rparr>"
  have fin: "finishPacket ?s = ?g"
    using finishPacket_release [of bootState 0 "packets bootState 0" "[PoolPacket 1]"]
    by (simp add: bootState_fields)
  have cur: "currentPacket ?g = None" by simp
  have pend: "toSend ?g = PoolPacket 1 # []" by (simp add: playing_def)
  have pk: "packets ?g 1 = packets bootState 1" by (simp add: playing_def)
  have b2: "(49::nat) \<le> 8 * MAX_BYTES_IN_PACKET"
    by (simp add: MAX_BYTES_IN_PACKET_def)
  have cb: "currentBit (packets ?g 1) = 0" unfolding pk by (rule bootState_fields(7))
  have nb: "numberOfBits (packets ?g 1) = 49" unfolding pk by (rule bootState_fields(8))
  have rp: "numberOfRepeats (packets ?g 1) = 10" unfolding pk by (rule bootState_fields(9))
  have "(nat 10 + 1) * 49 = (539::nat)" by simp
  with play_all [OF fin cur pend cb nb _ b2 rp]
  have "getNextBits 539 ?s
          = Inr (map (\<lambda>j. bufferBit (packets ?g 1) (j mod 49)) [0..<539],
                 playing ?g 1 (packets ?g 1) 49 0 [])"
    by simp
  moreover have "availablePackets ?g = [PoolPacket 0]"
    by (simp add: bootState_fields)
  ultimately show ?thesis unfolding pk by blast
qed

lemma boot_reaches_idle:
  "\<exists>bs g. getNextBits 1569 bootState = Inr (bs, g)
        \<and> currentPacket g = Some IdlePacket \<and> toSend g = []
        \<and> availablePackets g = [PoolPacket 0, PoolPacket 1]"
proof -
  from boot_reset_played obtain bs1 where
    one: "getNextBits 1029 bootState
            = Inr (bs1, playing bootState 0 (packets bootState 0) 49 0 [PoolPacket 1])"
    by blast
  from boot_idle_played obtain bs2 g where
    two: "getNextBits 539 (playing bootState 0 (packets bootState 0) 49 0 [PoolPacket 1])
            = Inr (bs2, playing g 1 (packets bootState 1) 49 0 [])"
    and av: "availablePackets g = [PoolPacket 0]"
    by blast
  from tick_release_idle [of g 1 "packets bootState 1", unfolded bootState_fields(8)]
  obtain bit g' where
    three: "getNextBitToSend (playing g 1 (packets bootState 1) 49 0 []) = Inr (bit, g')"
    and idle: "currentPacket g' = Some IdlePacket" "toSend g' = []"
      "availablePackets g' = availablePackets g @ [PoolPacket 1]"
    by blast
  have "getNextBits (1029 + 539) bootState
          = Inr (bs1 @ bs2, playing g 1 (packets bootState 1) 49 0 [])"
    by (simp only: getNextBits_add one two sum.case prod.case)
  then have "getNextBits 1568 bootState
          = Inr (bs1 @ bs2, playing g 1 (packets bootState 1) 49 0 [])"
    by simp
  from getNextBits_snoc [OF this three]
  have "getNextBits 1569 bootState = Inr ((bs1 @ bs2) @ [bit], g')"
    by simp
  with idle av show ?thesis by simp
qed

text \<open>
  Claim C8, as amended. After \<^verbatim>\<open>stopSignal\<close> the pending queue is empty. When the pending
  queue was already empty at the call, the current packet afterwards is null if it was null
  or a pool packet, and is still the idle packet if it was the idle packet.
\<close>

theorem C8_stopSignal_pending_empty:
  "toSend (stopSignal g) = []
   \<and> (toSend g = [] \<longrightarrow>
        currentPacket (stopSignal g)
          = (if currentPacket g = Some IdlePacket then Some IdlePacket else None))"
  by (simp add: stopSignal_toSend stopSignal_no_pending)


theorem C8_stopSignal_pending_empty_witness:
  "toSend (allocatePackets 2 newGenerator) = []
   \<and> toSend (stopSignal (allocatePackets 2 newGenerator)) = []
   \<and> currentPacket (stopSignal (allocatePackets 2 newGenerator)) = None"
  using C8_stopSignal_pending_empty [of "allocatePackets 2 newGenerator"]
  by (simp add: allocatePackets_def newGenerator_def)

text \<open>
  The claim as written has a null current packet after every stop. From the configured
  generator, 1569 calls of the interrupt routine play the reset packet 21 times and the
  idle packet loaded at start 11 times and begin the idle packet of the generator; the
  pending queue is then empty, and after \<^verbatim>\<open>stopSignal\<close> the current packet is still the idle
  packet.
\<close>

theorem C8_counterexample:
  "map_sum id (\<lambda>(bs, g). (toSend g, currentPacket (stopSignal g))) (getNextBits 1569 bootState)
     = Inr ([], Some IdlePacket)"
proof -
  from boot_reaches_idle obtain bs g where
    "getNextBits 1569 bootState = Inr (bs, g)"
    "currentPacket g = Some IdlePacket" "toSend g = []"
    by blast
  then show ?thesis
    by (simp add: stopSignal_no_pending)
qed


section \<open>Conservation of the pool\<close>

lemma owned_packetUpd: "owned (packetUpd r f g) = owned g"
  by (cases r) (simp_all add: owned_def)

lemma conserved_packetUpd: "conserved n (packetUpd r f g) = conserved n g"
  by (simp add: conserved_def owned_packetUpd)

lemma conserved_packetCount:
  assumes "conserved n g"
  shows "packetCount g = n"
proof -
  have "packetCount g = length (owned g)"
    by (simp add: packetCount_def owned_def split: option.splits)
  also have "\<dots> = card (set (owned g))"
  proof -
    from assms have "distinct (owned g)" by (simp add: conserved_def)
    then show ?thesis by (rule distinct_card [symmetric])
  qed
  also have "\<dots> = card (PoolPacket ` {0..<n})"
    using assms by (simp add: conserved_def)
  also have "\<dots> = card {0..<n}"
    by (rule card_image) (simp add: inj_on_def)
  finally show ?thesis by simp
qed

lemma conserved_allocatePackets: "conserved n (allocatePackets n newGenerator)"
  by (simp add: conserved_def owned_def allocatePackets_def newGenerator_def distinct_map inj_on_def)

lemma conserved_loadPacket:
  assumes "conserved n g" and "loadPacket data repeats g = Inr g'"
  shows "conserved n g'"
proof -
  from assms(2) obtain packet rest frame where
    av: "availablePackets g = packet # rest"
    and g': "g' = (packetUpd packet (fillPacket frame repeats) (g\<lparr>availablePackets := rest\<rparr>))
                    \<lparr>toSend := toSend (packetUpd packet (fillPacket frame repeats)
                                   (g\<lparr>availablePackets := rest\<rparr>)) @ [packet]\<rparr>"
    by (auto simp: loadPacket_def Let_def split: list.splits sum.splits if_splits)
  have "owned g' = rest @ (toSend g @ [packet])
                     @ (case currentPacket g of None \<Rightarrow> [] | Some r \<Rightarrow> if r = IdlePacket then [] else [r])"
    by (simp add: g' owned_def toSend_packetUpd availablePackets_packetUpd currentPacket_packetUpd)
  moreover have "owned g = (packet # rest) @ toSend g
                     @ (case currentPacket g of None \<Rightarrow> [] | Some r \<Rightarrow> if r = IdlePacket then [] else [r])"
    by (simp add: owned_def av)
  ultimately show ?thesis
    using assms(1) by (auto simp: conserved_def)
qed

lemma conserved_finishPacket:
  assumes "conserved n g"
  shows "conserved n (finishPacket g)"
proof (cases "currentPacket g")
  case None
  with assms show ?thesis by (simp add: finishPacket_def)
next
  case (Some r)
  show ?thesis
  proof (cases "currentBit (packetAt g r) = numberOfBits (packetAt g r)")
    case False
    with Some assms show ?thesis by (simp add: finishPacket_def)
  next
    case True
    show ?thesis
    proof (cases "0 < numberOfRepeats (packetAt g r)")
      case True
      with \<open>currentBit (packetAt g r) = numberOfBits (packetAt g r)\<close> Some assms
      show ?thesis by (simp add: finishPacket_def conserved_packetUpd)
    next
      case False
      show ?thesis
      proof (cases "r = IdlePacket")
        case True
        with False \<open>currentBit (packetAt g r) = numberOfBits (packetAt g r)\<close> Some
        have "owned (finishPacket g) = owned g"
          by (simp add: finishPacket_def owned_def)
        with assms show ?thesis by (simp add: conserved_def)
      next
        case idle: False
        with False \<open>currentBit (packetAt g r) = numberOfBits (packetAt g r)\<close> Some
        have "owned (finishPacket g) = availablePackets g @ [r] @ toSend g"
          and "owned g = availablePackets g @ toSend g @ [r]"
          by (simp_all add: finishPacket_def owned_def)
        with assms show ?thesis by (auto simp: conserved_def)
      qed
    qed
  qed
qed

lemma conserved_fetchPacket:
  assumes "conserved n g"
  shows "conserved n (fetchPacket g)"
proof (cases "currentPacket g")
  case (Some r)
  with assms show ?thesis by (simp add: fetchPacket_def)
next
  case None
  show ?thesis
  proof (cases "toSend g")
    case Nil
    with None assms show ?thesis
      by (simp add: fetchPacket_def conserved_def owned_def)
  next
    case (Cons r rest)
    with None assms have "r \<noteq> IdlePacket"
      by (auto simp: conserved_def owned_def)
    with Cons None assms show ?thesis
      by (auto simp: fetchPacket_def conserved_def owned_def)
  qed
qed

lemma conserved_extractBit:
  assumes "conserved n g" and "extractBit g = Inr (b, g')"
  shows "conserved n g'"
  using assms
  by (auto simp: extractBit_def conserved_packetUpd split: option.splits if_splits)

lemma conserved_getNextBitToSend:
  assumes "conserved n g" and "getNextBitToSend g = Inr (b, g')"
  shows "conserved n g'"
  using assms conserved_extractBit [OF conserved_fetchPacket [OF conserved_finishPacket]]
  by (simp add: getNextBitToSend_def)

lemma conserved_stopSignal_no_pending:
  assumes "conserved n g" and "toSend g = []"
  shows "conserved n (stopSignal g)"
  using assms
  by (auto simp: stopSignal_def Let_def conserved_def owned_def split: option.splits)

lemma packetAt_packetUpd_other: "r \<noteq> x \<Longrightarrow> packetAt (packetUpd r f g) x = packetAt g x"
  by (cases r; cases x) simp_all

lemma packetAt_queues_update:
  "packetAt (g\<lparr>currentPacket := c, toSend := q\<rparr>) r = packetAt g r"
  "packetAt (g\<lparr>currentPacket := c\<rparr>) r = packetAt g r"
  by (cases r; simp)+

lemma conserved_pending:
  assumes "conserved n g"
  shows "IdlePacket \<notin> set (toSend g)"
    and "distinct (toSend g)"
    and "set (availablePackets g) \<inter> set (toSend g) = {}"
    and "currentPacket g = Some r \<Longrightarrow> r \<notin> set (toSend g)"
proof -
  from assms have d: "distinct (owned g)" and s: "set (owned g) = PoolPacket ` {0..<n}"
    by (simp_all add: conserved_def)
  from s show "IdlePacket \<notin> set (toSend g)" by (auto simp: owned_def)
  from d show "distinct (toSend g)" by (simp add: owned_def)
  from d show "set (availablePackets g) \<inter> set (toSend g) = {}" by (auto simp: owned_def)
  show "r \<notin> set (toSend g)" if "currentPacket g = Some r"
  proof (cases "r = IdlePacket")
    case True
    with \<open>IdlePacket \<notin> set (toSend g)\<close> show ?thesis by simp
  next
    case False
    with d that show ?thesis by (auto simp: owned_def)
  qed
qed

lemma loadPacket_pending:
  assumes "conserved n g" and "loadPacket data repeats g = Inr g'"
  shows "\<forall>x \<in> set (toSend g). packetAt g' x = packetAt g x"
    and "\<exists>p. toSend g' = toSend g @ [p] \<and> currentBit (packetAt g' p) = 0
           \<and> numberOfRepeats (packetAt g' p) = repeats"
proof -
  from assms(2) obtain packet rest frame where
    av: "availablePackets g = packet # rest"
    and g': "g' = (packetUpd packet (fillPacket frame repeats) (g\<lparr>availablePackets := rest\<rparr>))
                    \<lparr>toSend := toSend (packetUpd packet (fillPacket frame repeats)
                                   (g\<lparr>availablePackets := rest\<rparr>)) @ [packet]\<rparr>"
    by (auto simp: loadPacket_def Let_def split: list.splits sum.splits if_splits)
  from conserved_pending(3) [OF assms(1)] av have notin: "packet \<notin> set (toSend g)" by auto
  show "\<forall>x \<in> set (toSend g). packetAt g' x = packetAt g x"
  proof
    fix x assume "x \<in> set (toSend g)"
    with notin have "packet \<noteq> x" by auto
    then show "packetAt g' x = packetAt g x"
      by (simp add: g' packetAt_toSend_update packetAt_packetUpd_other packetAt_availablePackets_update)
  qed
  have "toSend g' = toSend g @ [packet]"
    by (simp add: g' toSend_packetUpd)
  moreover have "packetAt g' packet = fillPacket frame repeats (packetAt g packet)"
    by (simp add: g' packetAt_toSend_update packetAt_packetUpd_same packetAt_availablePackets_update)
  moreover have "currentBit (fillPacket frame repeats p) = 0
                 \<and> numberOfRepeats (fillPacket frame repeats p) = repeats" for p
    by (simp add: fillPacket_def Let_def)
  ultimately show "\<exists>p. toSend g' = toSend g @ [p] \<and> currentBit (packetAt g' p) = 0
           \<and> numberOfRepeats (packetAt g' p) = repeats"
    by simp
qed

lemma finishPacket_pending:
  assumes "conserved n g"
  shows "toSend (finishPacket g) = toSend g"
    and "\<forall>x \<in> set (toSend g). packetAt (finishPacket g) x = packetAt g x"
proof -
  show "toSend (finishPacket g) = toSend g"
    by (simp add: finishPacket_def toSend_packetUpd split: option.splits)
  show "\<forall>x \<in> set (toSend g). packetAt (finishPacket g) x = packetAt g x"
  proof
    fix x assume x: "x \<in> set (toSend g)"
    show "packetAt (finishPacket g) x = packetAt g x"
    proof (cases "currentPacket g")
      case None
      then show ?thesis by (simp add: finishPacket_def)
    next
      case (Some r)
      with conserved_pending(4) [OF assms] x have "r \<noteq> x" by auto
      with Some show ?thesis
        by (simp add: finishPacket_def packetAt_packetUpd_other packetAt_currentPacket_update
            packetAt_availablePackets_update)
    qed
  qed
qed

lemma fetchPacket_pending:
  assumes "conserved n g"
  shows "set (toSend (fetchPacket g)) \<subseteq> set (toSend g)"
    and "\<forall>x \<in> set (toSend g). packetAt (fetchPacket g) x = packetAt g x"
proof -
  show "set (toSend (fetchPacket g)) \<subseteq> set (toSend g)"
    by (auto simp: fetchPacket_def toSend_packetUpd split: option.splits list.splits)
  show "\<forall>x \<in> set (toSend g). packetAt (fetchPacket g) x = packetAt g x"
  proof
    fix x assume x: "x \<in> set (toSend g)"
    with conserved_pending(1) [OF assms] have "IdlePacket \<noteq> x" by auto
    with x show "packetAt (fetchPacket g) x = packetAt g x"
      by (auto simp: fetchPacket_def packetAt_queues_update packetAt_packetUpd_other
          split: option.splits list.splits)
  qed
qed

lemma extractBit_pending:
  assumes "conserved n g" and "extractBit g = Inr (b, g')"
  shows "toSend g' = toSend g"
    and "\<forall>x \<in> set (toSend g). packetAt g' x = packetAt g x"
proof -
  from assms(2) show "toSend g' = toSend g"
    by (auto simp: extractBit_def toSend_packetUpd split: option.splits if_splits)
  show "\<forall>x \<in> set (toSend g). packetAt g' x = packetAt g x"
  proof
    fix x assume x: "x \<in> set (toSend g)"
    show "packetAt g' x = packetAt g x"
    proof (cases "currentPacket g")
      case None
      with assms(2) show ?thesis by (simp add: extractBit_def)
    next
      case (Some r)
      with conserved_pending(4) [OF assms(1)] x have "r \<noteq> x" by auto
      with Some assms(2) show ?thesis
        by (auto simp: extractBit_def packetAt_packetUpd_other split: if_splits)
    qed
  qed
qed

lemma getNextBitToSend_pending:
  assumes "conserved n g" and "getNextBitToSend g = Inr (b, g')"
  shows "set (toSend g') \<subseteq> set (toSend g)"
    and "\<forall>x \<in> set (toSend g'). packetAt g' x = packetAt g x"
proof -
  let ?g1 = "finishPacket g"
  let ?g2 = "fetchPacket ?g1"
  have c1: "conserved n ?g1" by (rule conserved_finishPacket [OF assms(1)])
  have c2: "conserved n ?g2" by (rule conserved_fetchPacket [OF c1])
  from assms(2) have ex: "extractBit ?g2 = Inr (b, g')" by (simp add: getNextBitToSend_def)
  note f = finishPacket_pending [OF assms(1)]
  note t = fetchPacket_pending [OF c1]
  note e = extractBit_pending [OF c2 ex]
  from e(1) t(1) f(1) show sub: "set (toSend g') \<subseteq> set (toSend g)" by simp
  show "\<forall>x \<in> set (toSend g'). packetAt g' x = packetAt g x"
  proof
    fix x assume x: "x \<in> set (toSend g')"
    with e(1) have x2: "x \<in> set (toSend ?g2)" by simp
    with t(1) have x1: "x \<in> set (toSend ?g1)" by auto
    with f(1) have x0: "x \<in> set (toSend g)" by simp
    from e(2) x2 have "packetAt g' x = packetAt ?g2 x" by blast
    also from t(2) x1 have "\<dots> = packetAt ?g1 x" by blast
    also from f(2) x0 have "\<dots> = packetAt g x" by blast
    finally show "packetAt g' x = packetAt g x" .
  qed
qed

lemma pendingReset_loadPacket:
  assumes "conserved n g" and "pendingReset g" and "loadPacket data repeats g = Inr g'"
  shows "pendingReset g'"
  using loadPacket_pending [OF assms(1,3)] assms(2)
  by (auto simp: pendingReset_def)

lemma pendingReset_getNextBitToSend:
  assumes "conserved n g" and "pendingReset g" and "getNextBitToSend g = Inr (b, g')"
  shows "pendingReset g'"
  using getNextBitToSend_pending [OF assms(1,3)] assms(2)
  by (auto simp: pendingReset_def)

lemma configureSignal_invariants:
  assumes "configureSignal n newGenerator = Inr g"
  shows "conserved n g" and "pendingReset g"
proof -
  let ?g0 = "allocatePackets n newGenerator"
  from assms obtain g1 where
    one: "loadPacket (take 2 resetPacket) (uint (20 :: u8)) ?g0 = Inr g1"
    and two: "loadPacket (take 2 idlePacketBytes) (uint (10 :: u8)) g1 = Inr g"
    by (auto simp: configureSignal_def startSignal_def loadBytePacket_def
        split: sum.splits if_splits)
  have c0: "conserved n ?g0" by (rule conserved_allocatePackets)
  have p0: "pendingReset ?g0"
    by (simp add: pendingReset_def allocatePackets_def newGenerator_def)
  have c1: "conserved n g1" by (rule conserved_loadPacket [OF c0 one])
  have p1: "pendingReset g1" by (rule pendingReset_loadPacket [OF c0 p0 one])
  show "conserved n g" by (rule conserved_loadPacket [OF c1 two])
  show "pendingReset g" by (rule pendingReset_loadPacket [OF c1 p1 two])
qed

text \<open>
  Without a stop that meets pending packets, every interleaving of \<^verbatim>\<open>loadPacket\<close> and the
  interrupt routine keeps the pool: no packet is duplicated or lost, the count is the pool
  size, and every pending packet has its cursor at 0.
\<close>

lemma reachable_invariants:
  assumes "reachable n g"
  shows "conserved n g \<and> pendingReset g"
  using assms
proof (induction rule: reachable.induct)
  case (configured g)
  then show ?case by (simp add: configureSignal_invariants)
next
  case (loaded g data repeats g')
  then show ?case
    by (blast intro: conserved_loadPacket pendingReset_loadPacket)
next
  case (ticked g b g')
  then show ?case
    by (blast intro: conserved_getNextBitToSend pendingReset_getNextBitToSend)
next
  case (stopped g)
  then show ?case
    by (simp add: conserved_stopSignal_no_pending pendingReset_def stopSignal_toSend)
qed

lemma reachable_packetCount: "reachable n g \<Longrightarrow> packetCount g = n"
  by (simp add: reachable_invariants conserved_packetCount)

lemma reachable_bootState: "reachable 2 bootState"
  by (rule reachable.configured) (rule configureSignal_bootState)

text \<open>
  A stop that meets pending packets breaks it, whatever the pool size: the packet drained
  last stays current and is in the free queue too.
\<close>

lemma stopSignal_pending_breaks_conservation:
  assumes "conserved n g" and "toSend g \<noteq> []"
  shows "packetCount (stopSignal g) = n + 1" and "\<not> distinct (owned (stopSignal g))"
proof -
  let ?c = "case currentPacket g of None \<Rightarrow> [] | Some r \<Rightarrow> if r \<noteq> IdlePacket then [r] else []"
  note st = stopSignal_pending [OF assms(2)]
  from assms(2) have mem: "last (toSend g) \<in> set (toSend g)" by simp
  with conserved_pending(1) [OF assms(1)] have pool: "last (toSend g) \<noteq> IdlePacket" by auto
  have own: "owned (stopSignal g) = availablePackets g @ ?c @ toSend g @ [last (toSend g)]"
    using pool by (simp add: owned_def st stopSignal_toSend)
  from mem show "\<not> distinct (owned (stopSignal g))"
    by (simp add: own)
  have "length (availablePackets g @ ?c @ toSend g) = length (owned g)"
    by (simp add: owned_def split: option.splits)
  also have "\<dots> = packetCount g"
    by (simp add: packetCount_def owned_def split: option.splits)
  also have "\<dots> = n"
    by (rule conserved_packetCount [OF assms(1)])
  finally have "length (availablePackets g @ ?c @ toSend g) = n" .
  moreover have "packetCount (stopSignal g) = length (availablePackets g @ ?c @ toSend g) + 1"
    using pool by (simp add: packetCount_def st stopSignal_toSend)
  ultimately show "packetCount (stopSignal g) = n + 1" by simp
qed

text \<open>
  Claim C4 on the source. The generator configured with two packets holds two packets. A
  call of \<^verbatim>\<open>stopSignal\<close> with packets pending leaves the last drained packet in
  \<^verbatim>\<open>_currentPacket\<close>: that packet is in the free queue and current at once, and the count
  is three.
\<close>

theorem C4_stopSignal_breaks_conservation:
  "packetCount bootState = 2
   \<and> packetCount (stopSignal bootState) = 3
   \<and> currentPacket (stopSignal bootState) = Some (PoolPacket 1)
   \<and> availablePackets (stopSignal bootState) = [PoolPacket 0, PoolPacket 1]"
  by (simp add: packetCount_def stopSignal_toSend stopSignal_pending bootState_fields)


lemma stopped_fields:
  "availablePackets (stopSignal bootState) = [PoolPacket 0, PoolPacket 1]"
  "toSend (stopSignal bootState) = []"
  "currentPacket (stopSignal bootState) = Some (PoolPacket 1)"
  by (simp_all add: stopSignal_toSend stopSignal_pending bootState_fields)

text \<open>
  Claim C9 on the source. After that stop, \<^verbatim>\<open>startSignal\<close> takes both packets from the
  free queue and makes them pending, the second of them being still current; the first
  call of the interrupt routine then advances the cursor of a pending packet to 1.
\<close>

theorem C9_restart_tick_moves_pending_cursor:
  "map_sum id (pendingCursors \<circ> snd)
     (andThen (startSignal (stopSignal bootState)) getNextBitToSend) = Inr [0, 1]
   \<and> map_sum id (currentPacket \<circ> snd)
       (andThen (startSignal (stopSignal bootState)) getNextBitToSend) = Inr (Some (PoolPacket 1))
   \<and> map_sum id (toSend \<circ> snd)
       (andThen (startSignal (stopSignal bootState)) getNextBitToSend)
       = Inr [PoolPacket 0, PoolPacket 1]"
  by (simp add: andThen_def startSignal_def loadBytePacket_def loadPacket_def stopped_fields
      appendChecksum_def resetPacket_def idlePacketBytes_def Let_def pendingCursors_def
      getNextBitToSend_def finishPacket_def fetchPacket_def extractBit_def fillPacket_def
      MAX_BYTES_IN_PACKET_def)

section \<open>The generator started again after a stop\<close>

lemma tick_past:
  assumes "c \<noteq> numberOfBits p" and "c div 8 < MAX_BYTES_IN_PACKET"
  shows "getNextBitToSend (playing g a p c r rest) = Inr (bufferBit p c, playing g a p (c + 1) r rest)"
  using assms
  by (simp add: getNextBitToSend_def finishPacket_def fetchPacket_def extractBit_def playing_def)

lemma tick_out:
  assumes "c \<noteq> numberOfBits p" and "MAX_BYTES_IN_PACKET \<le> c div 8"
  shows "getNextBitToSend (playing g a p c r rest) = Inl OutOfRange"
  using assms
  by (simp add: getNextBitToSend_def finishPacket_def fetchPacket_def extractBit_def playing_def)

lemma tick_fetch_any:
  assumes "currentPacket g = None" and "toSend g = PoolPacket a # rest"
    and "currentBit (packets g a) div 8 < MAX_BYTES_IN_PACKET"
  shows "getNextBitToSend g
           = Inr (bufferBit (packets g a) (currentBit (packets g a)),
                  playing g a (packets g a) (currentBit (packets g a) + 1)
                    (numberOfRepeats (packets g a)) rest)"
  using assms
  by (simp add: getNextBitToSend_def finishPacket_def fetchPacket_def extractBit_def playing_def)

lemma play_past:
  assumes "numberOfBits p < c" and "c + n \<le> 8 * MAX_BYTES_IN_PACKET"
  shows "getNextBits n (playing g a p c r rest)
           = Inr (map (bufferBit p) [c..<c + n], playing g a p (c + n) r rest)"
  using assms
proof (induction n)
  case 0
  then show ?case by simp
next
  case (Suc n)
  then have run: "getNextBits n (playing g a p c r rest)
      = Inr (map (bufferBit p) [c..<c + n], playing g a p (c + n) r rest)"
    by simp
  from Suc.prems have "c + n \<noteq> numberOfBits p" and "(c + n) div 8 < MAX_BYTES_IN_PACKET"
    by (simp_all add: MAX_BYTES_IN_PACKET_def)
  then have "getNextBitToSend (playing g a p (c + n) r rest)
      = Inr (bufferBit p (c + n), playing g a p (c + n + 1) r rest)"
    by (rule tick_past)
  from getNextBits_snoc [OF run this] show ?case by simp
qed

lemma play_dequeued_past_end:
  assumes fin: "finishPacket s = g"
    and cur: "currentPacket g = None" and pend: "toSend g = PoolPacket a # rest"
    and nb: "numberOfBits (packets g a) \<le> currentBit (packets g a)"
    and n: "currentBit (packets g a) + Suc n \<le> 8 * MAX_BYTES_IN_PACKET"
  shows "getNextBits (Suc n) s
           = Inr (map (bufferBit (packets g a))
                    [currentBit (packets g a)..<currentBit (packets g a) + Suc n],
                  playing g a (packets g a) (currentBit (packets g a) + Suc n)
                    (numberOfRepeats (packets g a)) rest)"
proof -
  let ?p = "packets g a"
  let ?c = "currentBit ?p"
  let ?r = "numberOfRepeats ?p"
  from n have "?c div 8 < MAX_BYTES_IN_PACKET" by (simp add: MAX_BYTES_IN_PACKET_def)
  from tick_fetch_any [OF cur pend this]
  have "getNextBitToSend g = Inr (bufferBit ?p ?c, playing g a ?p (?c + 1) ?r rest)" .
  moreover have "getNextBitToSend s = getNextBitToSend g"
    using getNextBitToSend_finishPacket [of s] fin cur by simp
  ultimately have first: "getNextBitToSend s = Inr (bufferBit ?p ?c, playing g a ?p (?c + 1) ?r rest)"
    by simp
  have rest: "getNextBits n (playing g a ?p (?c + 1) ?r rest)
      = Inr (map (bufferBit ?p) [?c + 1..<?c + 1 + n], playing g a ?p (?c + 1 + n) ?r rest)"
    by (rule play_past) (use nb n in simp_all)
  have "[?c..<?c + Suc n] = ?c # [?c + 1..<?c + 1 + n]"
    using upt_conv_Cons [of ?c "?c + Suc n"] by simp
  with first rest show ?thesis by simp
qed

lemma overrun_out_of_range:
  assumes "getNextBits n s = Inr (bs, playing g a p c r rest)"
    and "c \<noteq> numberOfBits p" and "8 * MAX_BYTES_IN_PACKET \<le> c"
  shows "getNextBits (n + Suc m) s = Inl OutOfRange"
proof -
  from assms(3) have "MAX_BYTES_IN_PACKET \<le> c div 8" by (simp add: MAX_BYTES_IN_PACKET_def)
  with assms(2) have "getNextBitToSend (playing g a p c r rest) = Inl OutOfRange"
    by (rule tick_out)
  then have "getNextBits (Suc m) (playing g a p c r rest) = Inl OutOfRange" by simp
  with assms(1) show ?thesis by (simp only: getNextBits_add sum.case prod.case)
qed

lemma playing_self:
  assumes "currentPacket g = Some (PoolPacket a)"
  shows "playing g a (packets g a) (currentBit (packets g a)) (numberOfRepeats (packets g a))
           (toSend g) = g"
  using assms by (simp add: playing_def)

lemma play_current:
  assumes b: "numberOfBits p = b" and b1: "1 \<le> b" and b2: "b \<le> 8 * MAX_BYTES_IN_PACKET"
    and r0: "0 \<le> r"
  shows "getNextBits ((nat r + 1) * b) (playing g a p 0 r rest)
           = Inr (map (\<lambda>j. bufferBit p (j mod b)) [0..<(nat r + 1) * b], playing g a p b 0 rest)"
proof -
  let ?q = "p\<lparr>numberOfRepeats := r, currentBit := 0\<rparr>"
  let ?g0 = "g\<lparr>packets := (packets g)(a := ?q), toSend := PoolPacket a # rest,
               currentPacket := None\<rparr>"
  have fin: "finishPacket ?g0 = ?g0" by (simp add: finishPacket_def)
  have nb: "numberOfBits (packets ?g0 a) = b" using b by simp
  have all: "getNextBits ((nat r + 1) * b) ?g0
      = Inr (map (\<lambda>j. bufferBit (packets ?g0 a) (j mod b)) [0..<(nat r + 1) * b],
             playing ?g0 a (packets ?g0 a) b 0 rest)"
    by (rule play_all [OF fin _ _ _ nb b1 b2 _ r0]) simp_all
  have same: "playing ?g0 a (packets ?g0 a) c r' rest = playing g a p c r' rest" for c r'
    by (simp add: playing_def)
  have bits: "bufferBit (packets ?g0 a) i = bufferBit p i" for i
    by (simp add: bufferBit_def)
  from b1 obtain m where m: "(nat r + 1) * b = Suc m"
    by (cases "(nat r + 1) * b") auto
  have first0: "getNextBitToSend ?g0 = Inr (bufferBit p 0, playing g a p 1 r rest)"
    by (simp add: getNextBitToSend_def finishPacket_def fetchPacket_def extractBit_def playing_def
        MAX_BYTES_IN_PACKET_def bufferBit_def)
  have first1: "getNextBitToSend (playing g a p 0 r rest) = Inr (bufferBit p 0, playing g a p 1 r rest)"
    using tick_mid [of 0 p g a r rest] b b1 b2 by simp
  have "getNextBits (Suc m) (playing g a p 0 r rest) = getNextBits (Suc m) ?g0"
    by (simp only: getNextBits.simps first0 first1)
  with all show ?thesis by (simp only: m same bits)
qed

lemma restart_ok: "startSignal (stopSignal bootState) = Inr restartState"
proof -
  have "\<exists>g. startSignal (stopSignal bootState) = Inr g"
    by (simp add: startSignal_def loadBytePacket_def loadPacket_def stopped_fields
        appendChecksum_def resetPacket_def idlePacketBytes_def Let_def)
  then show ?thesis by (auto simp add: restartState_def)
qed

lemma stopped_packets: "packets (stopSignal bootState) a = (if a = 0 \<or> a = 1 then zeroPacket else packets bootState a)"
  by (simp add: stopSignal_def bootState_fields Let_def)

lemma restartState_fields:
  "currentPacket restartState = Some (PoolPacket 1)"
  "toSend restartState = [PoolPacket 0, PoolPacket 1]"
  "availablePackets restartState = []"
  "currentBit (packets restartState 0) = 0"
  "numberOfBits (packets restartState 0) = 49"
  "numberOfRepeats (packets restartState 0) = 20"
  "currentBit (packets restartState 1) = 0"
  "numberOfBits (packets restartState 1) = 49"
  "numberOfRepeats (packets restartState 1) = 10"
  unfolding restartState_def
  by (simp_all add: startSignal_def loadBytePacket_def loadPacket_def stopped_fields
      appendChecksum_def resetPacket_def idlePacketBytes_def Let_def fillPacket_def)

lemma restartState_fields_Suc:
  "currentBit (packets restartState (Suc 0)) = 0"
  "numberOfBits (packets restartState (Suc 0)) = 49"
  "numberOfRepeats (packets restartState (Suc 0)) = 10"
  using restartState_fields by simp_all

lemma restartState_bytes:
  "buffer (packets restartState (Suc 0)) 0 = 0xFF"
  "buffer (packets restartState (Suc 0)) 6 = 0x80"
  "buffer (packets restartState (Suc 0)) 7 = 0"
  "buffer (packets restartState (Suc 0)) 8 = 0"
  "buffer (packets restartState (Suc 0)) 9 = 0"
  unfolding restartState_def
  by (simp_all add: startSignal_def loadBytePacket_def loadPacket_def stopped_fields
      appendChecksum_def resetPacket_def idlePacketBytes_def Let_def fillPacket_def
      stopped_packets zeroPacket_def)

lemma restartState_tail_bit:
  assumes "49 \<le> i" and "i < 80"
  shows "\<not> frameBit (packets restartState 1) i"
proof -
  from assms have "i div 8 = 6 \<and> 1 \<le> i mod 8 \<or> i div 8 = 7 \<or> i div 8 = 8 \<or> i div 8 = 9"
    by presburger
  then show ?thesis
  proof (elim disjE conjE)
    assume d: "i div 8 = 6" and m: "1 \<le> i mod 8"
    have "7 - i mod 8 < 7" using m by simp
    moreover have "\<not> bit (0x80 :: u8) n" if "n < 7" for n
    proof -
      from that have "n = 0 \<or> n = 1 \<or> n = 2 \<or> n = 3 \<or> n = 4 \<or> n = 5 \<or> n = 6" by presburger
      then show ?thesis by (auto simp add: bit_numeral_simps numeral_eq_Suc)
    qed
    ultimately show ?thesis by (simp add: frameBit_def d restartState_bytes)
  qed (simp_all add: frameBit_def restartState_bytes)
qed

lemma restartState_tail_bits:
  "map (frameBit (packets restartState 1)) [49..<80] = replicate 31 False"
proof -
  have "map (frameBit (packets restartState 1)) [49..<80] = map (\<lambda>_. False) [49..<80]"
  proof (rule map_cong [OF refl])
    fix x
    assume "x \<in> set [49..<80]"
    then have "49 \<le> x" and "x < 80" by (simp_all only: set_upt atLeastLessThan_iff)
    from restartState_tail_bit [OF this]
    show "frameBit (packets restartState 1) x = False" by blast
  qed
  then show ?thesis unfolding map_replicate_const length_upt by simp
qed

lemma restartState_first_bit: "frameBit (packets restartState 1) 0"
  by (simp add: frameBit_def restartState_bytes)

lemma restart_first_packets:
  "getNextBits 1568 restartState
     = Inr (concat (replicate 11 (map (frameBit (packets restartState 1)) [0..<49]))
            @ concat (replicate 21 (map (frameBit (packets restartState 0)) [0..<49])),
            playing
              ((playing restartState 1 (packets restartState 1) 49 0 [PoolPacket 0, PoolPacket 1])
                 \<lparr>availablePackets := [PoolPacket 1], currentPacket := None\<rparr>)
              0 (packets restartState 0) 49 0 [PoolPacket 1])"
proof -
  let ?p1 = "packets restartState 1" and ?p0 = "packets restartState 0"
  let ?sA = "playing restartState 1 ?p1 49 0 [PoolPacket 0, PoolPacket 1]"
  let ?gB = "?sA\<lparr>availablePackets := [PoolPacket 1], currentPacket := None\<rparr>"
  have b2: "(49::nat) \<le> 8 * MAX_BYTES_IN_PACKET"
    by (simp add: MAX_BYTES_IN_PACKET_def)
  have start: "playing restartState 1 ?p1 0 10 [PoolPacket 0, PoolPacket 1] = restartState"
    by (rule playing_self [OF restartState_fields(1), unfolded restartState_fields])
  have "getNextBits ((nat 10 + 1) * 49) (playing restartState 1 ?p1 0 10 [PoolPacket 0, PoolPacket 1])
          = Inr (map (\<lambda>j. bufferBit ?p1 (j mod 49)) [0..<(nat 10 + 1) * 49], ?sA)"
    by (rule play_current [OF restartState_fields(8) _ b2]) simp_all
  then have one: "getNextBits 539 restartState
          = Inr (concat (replicate 11 (map (frameBit ?p1) [0..<49])), ?sA)"
    unfolding start bufferBit_frameBit map_mod_replicate by simp
  have fin: "finishPacket ?sA = ?gB"
    by (rule finishPacket_release [of restartState 1 ?p1 "[PoolPacket 0, PoolPacket 1]",
          unfolded restartState_fields append_Nil])
  have cur: "currentPacket ?gB = None" by simp
  have pend: "toSend ?gB = PoolPacket 0 # [PoolPacket 1]" by (simp add: playing_def)
  have pk: "packets ?gB 0 = ?p0" by (simp add: playing_def)
  have cb: "currentBit (packets ?gB 0) = 0" unfolding pk by (rule restartState_fields(4))
  have nb: "numberOfBits (packets ?gB 0) = 49" unfolding pk by (rule restartState_fields(5))
  have rp: "numberOfRepeats (packets ?gB 0) = 20" unfolding pk by (rule restartState_fields(6))
  have "getNextBits ((nat 20 + 1) * 49) ?sA
          = Inr (map (\<lambda>j. bufferBit (packets ?gB 0) (j mod 49)) [0..<(nat 20 + 1) * 49],
                 playing ?gB 0 (packets ?gB 0) 49 0 [PoolPacket 1])"
    by (rule play_all [OF fin cur pend cb nb _ b2 rp]) simp_all
  then have two: "getNextBits 1029 ?sA
          = Inr (concat (replicate 21 (map (frameBit ?p0) [0..<49])),
                 playing ?gB 0 ?p0 49 0 [PoolPacket 1])"
    unfolding pk bufferBit_frameBit map_mod_replicate by simp
  have "getNextBits (539 + 1029) restartState
          = Inr (concat (replicate 11 (map (frameBit ?p1) [0..<49]))
                 @ concat (replicate 21 (map (frameBit ?p0) [0..<49])),
                 playing ?gB 0 ?p0 49 0 [PoolPacket 1])"
    by (simp only: getNextBits_add one two sum.case prod.case)
  then show ?thesis by simp
qed

lemma length_concat_replicate: "length (concat (replicate n xs)) = n * length xs"
  by (induction n) simp_all

lemma restart_overrun:
  "\<exists>bs g q. getNextBits 1568 restartState = Inr (bs, g)
      \<and> bs = concat (replicate 11 (map (frameBit (packets restartState 1)) [0..<49]))
             @ concat (replicate 21 (map (frameBit (packets restartState 0)) [0..<49]))
      \<and> length bs = 1568
      \<and> currentPacket (finishPacket g) = None
      \<and> toSend (finishPacket g) = [PoolPacket 1]
      \<and> packets g 1 = q
      \<and> numberOfBits q = 49 \<and> numberOfRepeats q = 0 \<and> currentBit q = 49
      \<and> getNextBits 31 g
           = Inr (map (frameBit (packets restartState 1)) [49..<80],
                  playing (finishPacket g) 1 q 80 0 [])"
proof -
  let ?p1 = "packets restartState 1" and ?p0 = "packets restartState 0"
  let ?sA = "playing restartState 1 ?p1 49 0 [PoolPacket 0, PoolPacket 1]"
  let ?gB = "?sA\<lparr>availablePackets := [PoolPacket 1], currentPacket := None\<rparr>"
  let ?sB = "playing ?gB 0 ?p0 49 0 [PoolPacket 1]"
  let ?gC = "?sB\<lparr>availablePackets := [PoolPacket 1, PoolPacket 0], currentPacket := None\<rparr>"
  let ?bs = "concat (replicate 11 (map (frameBit ?p1) [0..<49]))
             @ concat (replicate 21 (map (frameBit ?p0) [0..<49]))"
  let ?q = "?p1\<lparr>numberOfRepeats := 0, currentBit := 49\<rparr>"
  have run: "getNextBits 1568 restartState = Inr (?bs, ?sB)"
    by (rule restart_first_packets)
  have len: "length ?bs = 1568"
    by (simp add: length_concat_replicate)
  have fin: "finishPacket ?sB = ?gC"
    using finishPacket_release [of ?gB 0 ?p0 "[PoolPacket 1]", unfolded restartState_fields]
    by (simp add: playing_def)
  have q: "packets ?sB 1 = ?q" by (simp add: playing_def)
  have qC: "packets ?gC 1 = ?q" by (simp add: playing_def)
  have nb: "numberOfBits ?q = 49" and rp: "numberOfRepeats ?q = 0" and cb: "currentBit ?q = 49"
    by (simp_all add: restartState_fields_Suc)
  have curC: "currentPacket ?gC = None" by simp
  have pendC: "toSend ?gC = PoolPacket 1 # []" by (simp add: playing_def)
  have le: "numberOfBits (packets ?gC 1) \<le> currentBit (packets ?gC 1)"
    unfolding qC nb cb by simp
  have inb: "currentBit (packets ?gC 1) + Suc 30 \<le> 8 * MAX_BYTES_IN_PACKET"
    unfolding qC cb by (simp add: MAX_BYTES_IN_PACKET_def)
  have bq: "bufferBit ?q = frameBit ?p1"
    by (rule ext) (simp add: bufferBit_frameBit frameBit_def)
  have e1: "49 + 31 = (80::nat)" and e2: "Suc 30 = (31::nat)" by simp_all
  note tail = play_dequeued_past_end [OF fin curC pendC le inb, unfolded qC cb rp bq e2 e1,
      folded fin]
  from run len curC [folded fin] pendC [folded fin] q nb rp cb tail
  show ?thesis by (intro exI conjI) (assumption | rule refl | simp only: append_Nil)+
qed

lemma packets_playing: "packets (playing g a p c r rest) a = p\<lparr>numberOfRepeats := r, currentBit := c\<rparr>"
  by (simp add: playing_def)

lemma drop_length_append: "length xs = n \<Longrightarrow> drop n (xs @ ys) = ys"
  by simp

text \<open>
  Claim C5 on the source. The generator configured with two packets is stopped before the
  first interrupt and started again: \<^verbatim>\<open>stopSignal\<close> leaves \<^verbatim>\<open>_currentPacket\<close> at pool packet 1,
  and \<^verbatim>\<open>startSignal\<close> loads that packet and makes it pending. The first 1568 calls of the
  interrupt routine play packet 1, the current one, 11 times and packet 0 21 times, most
  significant bit of each byte first. The release step of the next call then finds no
  current packet and packet 1 first in the pending queue, a pool packet of 49 bits with no
  repeat left and its cursor at 49. The claim has the next 49 calls return the 49 bits of
  the packet, whose first bit is 1, and keep the packet current. The next 31 calls return
  the bits 49 to 79 of its buffer, all 0, and leave the cursor at 80; the call after them
  reads past the ten bytes of the buffer.
\<close>

theorem C5_restart_packet_dequeued_at_its_end:
  "startSignal (stopSignal bootState) = Inr restartState
   \<and> map_sum id
         (\<lambda>(bs, g). (bs, currentPacket (finishPacket g), toSend (finishPacket g),
                     numberOfBits (packets g 1), numberOfRepeats (packets g 1),
                     currentBit (packets g 1)))
         (getNextBits 1568 restartState)
       = Inr (concat (replicate 11 (map (frameBit (packets restartState 1)) [0..<49]))
              @ concat (replicate 21 (map (frameBit (packets restartState 0)) [0..<49])),
              None, [PoolPacket 1], 49, 0, 49)
   \<and> frameBit (packets restartState 1) 0
   \<and> map_sum id (\<lambda>(bs, g). (drop 1568 bs, currentPacket g, currentBit (packets g 1)))
         (getNextBits (1568 + 31) restartState)
       = Inr (replicate 31 False, Some (PoolPacket 1), 80)
   \<and> getNextBits (1568 + 49) restartState = Inl OutOfRange"
proof -
  let ?bs = "concat (replicate 11 (map (frameBit (packets restartState 1)) [0..<49]))
             @ concat (replicate 21 (map (frameBit (packets restartState 0)) [0..<49]))"
  from restart_overrun obtain g q where
    run: "getNextBits 1568 restartState = Inr (?bs, g)" and len: "length ?bs = 1568"
    and cur: "currentPacket (finishPacket g) = None"
    and pend: "toSend (finishPacket g) = [PoolPacket 1]"
    and pk: "packets g 1 = q"
    and nb: "numberOfBits q = 49" and rp: "numberOfRepeats q = 0" and cb: "currentBit q = 49"
    and tail: "getNextBits 31 g
                 = Inr (map (frameBit (packets restartState 1)) [49..<80],
                        playing (finishPacket g) 1 q 80 0 [])"
    by blast
  let ?s = "playing (finishPacket g) 1 q 80 0 []"
  have all: "getNextBits (1568 + 31) restartState = Inr (?bs @ replicate 31 False, ?s)"
    by (simp only: getNextBits_add run tail restartState_tail_bits sum.case prod.case)
  have "getNextBits (1568 + 31 + Suc 17) restartState = Inl OutOfRange"
    by (rule overrun_out_of_range [OF all]) (simp_all add: nb MAX_BYTES_IN_PACKET_def)
  moreover have "1568 + 31 + Suc 17 = (1568 + 49 :: nat)" by simp
  ultimately have out: "getNextBits (1568 + 49) restartState = Inl OutOfRange"
    by (simp only:)
  have before: "map_sum id
         (\<lambda>(bs, g). (bs, currentPacket (finishPacket g), toSend (finishPacket g),
                     numberOfBits (packets g 1), numberOfRepeats (packets g 1),
                     currentBit (packets g 1)))
         (getNextBits 1568 restartState)
       = Inr (?bs, None, [PoolPacket 1], 49, 0, 49)"
    by (simp only: run map_sum.simps prod.case cur pend pk nb rp cb)
  have "drop 1568 (?bs @ replicate 31 False) = replicate 31 False"
    by (rule drop_length_append [OF len])
  moreover have "currentBit (packets ?s 1) = 80"
    by (simp only: packets_playing) simp
  ultimately have after: "map_sum id (\<lambda>(bs, g). (drop 1568 bs, currentPacket g, currentBit (packets g 1)))
         (getNextBits (1568 + 31) restartState)
       = Inr (replicate 31 False, Some (PoolPacket 1), 80)"
    by (simp only: all map_sum.simps prod.case currentPacket_playing)
  from restart_ok before restartState_first_bit after out show ?thesis
    by (intro conjI)
qed

section \<open>The ADC sampler\<close>

lemma positive_reading:
  fixes r :: i32
  assumes "0 <s r"
  shows "unat (scast r :: u64) = unat r" and "unat r < 2 ^ 31"
proof -
  from assms have pos: "0 < sint r" by (simp add: word_sless_alt)
  have lt: "sint r < 2 ^ 31" using sint_lt [of r] by simp
  have "uint r = take_bit 32 (sint r)" using uint_sint [of r] by simp
  also have "\<dots> = sint r" using pos lt by (simp add: take_bit_int_eq_self)
  finally have u: "uint r = sint r" .
  have "uint (scast r :: u64) = uint (word_of_int (sint r) :: u64)"
    by (simp only: scast_eq)
  also have "\<dots> = take_bit 64 (sint r)"
    by (simp only: uint_word_of_int_eq) simp
  also have "\<dots> = sint r" using pos lt by (intro take_bit_int_eq_self) simp_all
  finally have "uint (scast r :: u64) = uint r" using u by simp
  then show "unat (scast r :: u64) = unat r" by (simp only: unat_eq_nat_uint)
  from u lt show "unat r < 2 ^ 31" by (simp add: unat_eq_nat_uint)
qed

lemma sampleLoop_sum:
  assumes "unat current + length readings * 2 ^ 31 < 2 ^ 64"
  shows "sampleLoop readings current successfulReads
           = (current + word_of_nat (sum_list (map unat (filter (\<lambda>r. 0 <s r) readings))),
              successfulReads + int (length (filter (\<lambda>r. 0 <s r) readings)))
         \<and> unat (current + word_of_nat (sum_list (map unat (filter (\<lambda>r. 0 <s r) readings))))
             = unat current + sum_list (map unat (filter (\<lambda>r. 0 <s r) readings))"
  using assms
proof (induction readings arbitrary: current successfulReads)
  case Nil
  then show ?case by simp
next
  case (Cons r rs)
  show ?case
  proof (cases "0 <s r")
    case True
    note pr = positive_reading [OF True]
    from Cons.prems pr(2) have noov: "unat current + unat (scast r :: u64) < 2 ^ 64"
      by (simp add: pr(1))
    then have add: "unat (current + scast r) = unat current + unat r"
      using unat_add_lem [of current "scast r"] by (simp add: pr(1))
    from Cons.prems pr(2) add have pre: "unat (current + scast r) + length rs * 2 ^ 31 < 2 ^ 64"
      by simp
    have "word_of_nat (unat (scast r :: u64)) = (scast r :: u64)"
      by simp
    then have w: "(scast r :: u64) = word_of_nat (unat r)"
      by (simp only: pr(1))
    from Cons.IH [OF pre, of "successfulReads + 1"] True add show ?thesis
      by (simp add: w add.assoc)
  next
    case False
    from Cons.prems have pre: "unat current + length rs * 2 ^ 31 < 2 ^ 64" by simp
    from Cons.IH [OF pre, of successfulReads] False show ?thesis by simp
  qed
qed

lemma positive_sum_sint:
  "int (sum_list (map unat (filter (\<lambda>r. 0 <s r) (rs :: i32 list))))
     = sum_list (map sint (filter (\<lambda>r. 0 <s r) rs))"
proof (induction rs)
  case Nil
  then show ?case by simp
next
  case (Cons r rs)
  show ?case
  proof (cases "0 <s r")
    case True
    from True have pos: "0 < sint r" by (simp add: word_sless_alt)
    have lt: "sint r < 2 ^ 31" using sint_lt [of r] by simp
    have "uint r = take_bit 32 (sint r)" using uint_sint [of r] by simp
    also have "\<dots> = sint r" using pos lt by (simp add: take_bit_int_eq_self)
    finally have "int (unat r) = sint r" by simp
    with True Cons.IH show ?thesis by simp
  next
    case False
    with Cons.IH show ?thesis by simp
  qed
qed

lemma sampleADCChannel_average:
  fixes adc :: adc
  defines "positive \<equiv> \<lambda>readings. filter (\<lambda>r. 0 <s r) readings"
  shows "unat (fst (sampleADCChannel adc sampleCount t))
           = (if positive (map adc [t..<t + unat sampleCount]) = [] then 0
              else sum_list (map unat (positive (map adc [t..<t + unat sampleCount])))
                     div length (positive (map adc [t..<t + unat sampleCount])))"
    and "snd (sampleADCChannel adc sampleCount t) = t + unat sampleCount"
proof -
  define rs where "rs = map adc [t..<t + unat sampleCount]"
  define pos where "pos = filter (\<lambda>r. 0 <s r) rs"
  define S where "S = sum_list (map unat pos)"
  have unfolded: "sampleADCChannel adc sampleCount t
      = (case sampleLoop rs 0 0 of
           (current, successfulReads) \<Rightarrow>
             (if successfulReads \<noteq> 0 then current div word_of_int successfulReads else current,
              t + unat sampleCount))"
    by (simp add: sampleADCChannel_def Let_def rs_def)
  have "unat sampleCount < 2 ^ 8" using unsigned_less [of sampleCount] by simp
  then have n: "length rs \<le> 255" by (simp add: rs_def)
  then have "length rs * 2 ^ 31 \<le> 255 * (2 ^ 31 :: nat)"
    by (rule mult_le_mono1)
  then have bound: "unat (0 :: u64) + length rs * 2 ^ 31 < 2 ^ 64" by simp
  from sampleLoop_sum [OF bound, of 0]
  have loop: "sampleLoop rs 0 0 = (word_of_nat S, int (length pos))"
    and S: "unat (word_of_nat S :: u64) = S"
    by (simp_all add: S_def pos_def)
  have "length pos \<le> length rs" unfolding pos_def by (rule length_filter_le)
  with n have "length pos < 2 ^ 64" by simp
  then have cnt: "unat (word_of_nat (length pos) :: u64) = length pos"
    by (simp add: unat_of_nat)
  show "snd (sampleADCChannel adc sampleCount t) = t + unat sampleCount"
    by (simp add: unfolded split: prod.splits)
  have "unat (fst (sampleADCChannel adc sampleCount t))
           = (if pos = [] then 0 else S div length pos)"
  proof (cases "pos = []")
    case True
    then show ?thesis
      by (simp add: unfolded loop S_def)
  next
    case False
    then show ?thesis
      by (simp add: unfolded loop unat_div S cnt)
  qed
  then show "unat (fst (sampleADCChannel adc sampleCount t))
           = (if positive (map adc [t..<t + unat sampleCount]) = [] then 0
              else sum_list (map unat (positive (map adc [t..<t + unat sampleCount])))
                     div length (positive (map adc [t..<t + unat sampleCount])))"
    by (simp only: positive_def S_def pos_def rs_def)
qed

text \<open>
  Claim C10. \<^verbatim>\<open>sampleADCChannel\<close> returns the sum of the readings above zero divided by
  their number, rounded down, and 0 when no reading is above zero; it takes \<open>sampleCount\<close>
  readings. When every reading is zero or negative the result is 0, and no threshold is
  below it: every acknowledgement test \<open>average > threshold\<close> fails.
\<close>

theorem C10_sampleADCChannel_average_of_positive:
  "uint (fst (sampleADCChannel adc sampleCount t))
     = (if positiveReadings adc sampleCount t = [] then 0
        else sum_list (map sint (positiveReadings adc sampleCount t))
               div int (length (positiveReadings adc sampleCount t)))
   \<and> snd (sampleADCChannel adc sampleCount t) = t + unat sampleCount
   \<and> ((\<forall>r \<in> set (adcReadings adc sampleCount t). r \<le>s 0) \<longrightarrow>
        fst (sampleADCChannel adc sampleCount t) = 0
        \<and> (\<forall>ack :: 16 word. \<not> ucast ack < fst (sampleADCChannel adc sampleCount t)))"
proof (intro conjI impI)
  let ?pos = "positiveReadings adc sampleCount t"
  have avg: "unat (fst (sampleADCChannel adc sampleCount t))
               = (if ?pos = [] then 0 else sum_list (map unat ?pos) div length ?pos)"
    using sampleADCChannel_average(1) [of adc sampleCount t]
    by (simp only: positiveReadings_def adcReadings_def)
  have "uint (fst (sampleADCChannel adc sampleCount t))
          = int (unat (fst (sampleADCChannel adc sampleCount t)))"
    by simp
  also have "\<dots> = (if ?pos = [] then 0 else int (sum_list (map unat ?pos)) div int (length ?pos))"
    by (simp add: avg zdiv_int)
  also have "int (sum_list (map unat ?pos)) = sum_list (map sint ?pos)"
    unfolding positiveReadings_def by (rule positive_sum_sint)
  finally show "uint (fst (sampleADCChannel adc sampleCount t))
     = (if ?pos = [] then 0 else sum_list (map sint ?pos) div int (length ?pos))" .
  show "snd (sampleADCChannel adc sampleCount t) = t + unat sampleCount"
    by (rule sampleADCChannel_average(2))
  assume none: "\<forall>r \<in> set (adcReadings adc sampleCount t). r \<le>s 0"
  then have "?pos = []"
    by (auto simp: positiveReadings_def filter_empty_conv word_sle_eq word_sless_alt)
  with avg have "unat (fst (sampleADCChannel adc sampleCount t)) = 0" by simp
  then show zero: "fst (sampleADCChannel adc sampleCount t) = 0"
    by (simp add: unat_eq_0)
  show "\<forall>ack :: 16 word. \<not> ucast ack < fst (sampleADCChannel adc sampleCount t)"
    by (simp add: zero)
qed

theorem C10_sampleADCChannel_average_of_positive_witness:
  "list_all (\<lambda>r. r \<le>s 0) (adcReadings (\<lambda>k. 0) CVSampleCount 0)
   \<and> fst (sampleADCChannel (\<lambda>k. 0) CVSampleCount 0) = 0
   \<and> snd (sampleADCChannel (\<lambda>k. 0) CVSampleCount 0) = 250"
proof -
  have none: "\<forall>r \<in> set (adcReadings (\<lambda>k. 0) CVSampleCount 0). r \<le>s 0"
    by (simp add: adcReadings_def)
  with C10_sampleADCChannel_average_of_positive [of "\<lambda>k. 0" CVSampleCount 0] show ?thesis
    by (simp add: CVSampleCount_def list_all_iff)
qed


section \<open>Reading a CV\<close>

lemma sample_snd: "snd (sampleADCChannel adc CVSampleCount t) = t + 250"
  using sampleADCChannel_average(2) [of adc CVSampleCount t] by (simp add: CVSampleCount_def)

lemma readCVLoop_bits:
  assumes "b + n = 8"
  shows "\<exists>c' s'. readCVLoop adc ack b pkt c s = (c', s')
           \<and> adcReads s' = adcReads s + 250 * n
           \<and> (\<forall>j. bit c' j \<longleftrightarrow>
                  bit c j \<or> (b \<le> j \<and> j < 8
                    \<and> ucast ack < fst (sampleADCChannel adc CVSampleCount (adcReads s + 250 * (j - b)))))"
  using assms
proof (induction n arbitrary: b pkt c s)
  case 0
  then have "readCVLoop adc ack b pkt c s = (c, s)"
    by (subst readCVLoop.simps) simp
  with 0 show ?case by auto
next
  case (Suc n)
  then have lt: "b < 8" and nxt: "(b + 1) + n = 8" by simp_all
  let ?pkt = "pkt[2 := 0xE8 + word_of_nat b]"
  let ?s1 = "s\<lparr>loaded := loaded s @ [(take 2 resetPacket, 3), (take 3 ?pkt, 5)]\<rparr>"
  let ?sample = "sampleADCChannel adc CVSampleCount (adcReads s)"
  let ?s2 = "?s1\<lparr>adcReads := adcReads s + 250\<rparr>"
  let ?c1 = "if ucast ack < fst ?sample then c OR push_bit b 1 else c"
  have unroll: "readCVLoop adc ack b pkt c s = readCVLoop adc ack (b + 1) ?pkt ?c1 ?s2"
    using lt by (subst readCVLoop.simps) (simp add: Let_def sample_snd)
  define smp where "smp t = (ucast ack < fst (sampleADCChannel adc CVSampleCount t))" for t
  from Suc.IH [OF nxt, of ?pkt ?c1 ?s2] obtain c' s' where
    run: "readCVLoop adc ack (b + 1) ?pkt ?c1 ?s2 = (c', s')"
    and reads: "adcReads s' = adcReads ?s2 + 250 * n"
    and bits: "\<forall>j. bit c' j \<longleftrightarrow>
                  bit ?c1 j \<or> (b + 1 \<le> j \<and> j < 8 \<and> smp (adcReads ?s2 + 250 * (j - (b + 1))))"
    unfolding smp_def by blast
  have c1: "bit ?c1 j \<longleftrightarrow> bit c j \<or> (j = b \<and> smp (adcReads s))" for j
    using lt by (auto simp: bit_simps smp_def)
  have shift: "adcReads ?s2 + 250 * (j - (b + 1)) = adcReads s + 250 * (j - b)" if "b + 1 \<le> j" for j
    using that by simp
  have here: "adcReads s + 250 * (b - b) = adcReads s" by simp
  have all: "bit c' j \<longleftrightarrow> bit c j \<or> (b \<le> j \<and> j < 8 \<and> smp (adcReads s + 250 * (j - b)))" for j
  proof -
    consider "j = b" | "b + 1 \<le> j" | "j < b" by linarith
    then show ?thesis
    proof cases
      case 1
      have "bit c' b \<longleftrightarrow> bit c b \<or> smp (adcReads s)"
        using bits [rule_format, of b] c1 [of b] by simp
      with 1 lt here show ?thesis by simp
    next
      case 2
      have "bit c' j \<longleftrightarrow> bit c j \<or> (j < 8 \<and> smp (adcReads s + 250 * (j - b)))"
        using bits [rule_format, of j] c1 [of j] 2 by (simp only: shift [OF 2]) auto
      with 2 show ?thesis by auto
    next
      case 3
      have "bit c' j \<longleftrightarrow> bit c j"
        using bits [rule_format, of j] c1 [of j] 3 by auto
      with 3 show ?thesis by auto
    qed
  qed
  have "\<forall>j. bit c' j \<longleftrightarrow>
          bit c j \<or> (b \<le> j \<and> j < 8
            \<and> ucast ack < fst (sampleADCChannel adc CVSampleCount (adcReads s + 250 * (j - b))))"
    using all unfolding smp_def by blast
  with unroll run reads show ?case by simp
qed

lemma milliAmpAck_threshold:
  assumes "4 \<le> unat maxMilliAmps"
  shows "\<exists>ack. milliAmpAck maxMilliAmps = Inr ack \<and> unat ack = ackThreshold maxMilliAmps"
proof -
  from assms have nz: "maxMilliAmps \<noteq> 0" by auto
  from assms have "245760 div unat maxMilliAmps \<le> 245760 div 4"
    by (intro div_le_mono2) simp_all
  then have "245760 div unat maxMilliAmps < 2 ^ 16" by simp
  then have "unat (word_of_nat (245760 div unat maxMilliAmps) :: 16 word)
               = 245760 div unat maxMilliAmps"
    by (simp add: unat_of_nat)
  with nz show ?thesis
    by (simp add: milliAmpAck_def ackThreshold_def)
qed

lemma ack_compare:
  fixes ack :: "16 word" and average :: u64
  shows "ucast ack < average \<longleftrightarrow> unat ack < unat average"
proof -
  have "unat ack < 2 ^ 16" using unsigned_less [of ack] by simp
  then have "unat ack < 2 ^ 64" by simp
  then have "unat (ucast ack :: u64) = unat ack"
    by (simp add: unsigned_ucast_eq take_bit_nat_eq_self)
  then show ?thesis by (simp add: word_less_nat_alt)
qed

lemma low_byte_value:
  fixes c :: "16 word"
  assumes "\<forall>j. bit c j \<longrightarrow> j < 8"
  shows "0 \<le> sint c" and "sint c \<le> 255" and "\<forall>i. bit (sint c) i \<longleftrightarrow> bit c i"
proof -
  have tb: "take_bit 8 c = c"
    using assms by (intro bit_eqI) (auto simp: bit_simps)
  have "uint (take_bit 8 c) = take_bit 8 (uint c)"
    by (rule unsigned_take_bit_eq)
  then have "uint (take_bit 8 c) < 2 ^ 8"
    by (simp only: take_bit_int_less_exp)
  with tb have u: "uint c < 256" by simp
  have "sint c = signed_take_bit 15 (uint c)"
    using sint_uint [of c] by simp
  also have "\<dots> = uint c"
  proof (rule signed_take_bit_int_eq_self)
    have "- (2 ^ 15) \<le> (0 :: int)" by simp
    also have "0 \<le> uint c" by simp
    finally show "- (2 ^ 15) \<le> uint c" .
    from u show "uint c < 2 ^ 15" by simp
  qed
  finally have su: "sint c = uint c" .
  from su show "0 \<le> sint c" by simp
  from su u show "sint c \<le> 255" by simp
  from su assms show "\<forall>i. bit (sint c) i \<longleftrightarrow> bit c i"
    by (auto simp: bit_uint_iff)
qed

lemma sampleADCChannel_constant:
  fixes c :: i32
  assumes "0 <s c" and "sampleCount \<noteq> 0"
  shows "unat (fst (sampleADCChannel (\<lambda>k. c) sampleCount t)) = unat c"
proof -
  let ?n = "unat sampleCount"
  from assms(2) have n: "0 < ?n" by (simp add: unat_gt_0)
  have rs: "map (\<lambda>k. c) [t..<t + ?n] = replicate ?n c"
    by (simp add: map_replicate_const)
  have pos: "filter (\<lambda>r. 0 <s r) (replicate ?n c) = replicate ?n c"
    using assms(1) by simp
  from n have ne: "replicate ?n c \<noteq> []" by simp
  have "unat (fst (sampleADCChannel (\<lambda>k. c) sampleCount t))
          = sum_list (map unat (replicate ?n c)) div length (replicate ?n c)"
    using sampleADCChannel_average(1) [of "\<lambda>k. c" sampleCount t] ne
    by (simp only: rs pos if_False)
  also have "\<dots> = (?n * unat c) div ?n"
    by (simp add: sum_list_replicate)
  also have "\<dots> = unat c" using n by simp
  finally show ?thesis .
qed

lemma sampleADCChannel_all_zero:
  "unat (fst (sampleADCChannel (\<lambda>k. 0) sampleCount t)) = 0"
proof -
  have "filter (\<lambda>r. 0 <s r) (map (\<lambda>k. 0 :: i32) [t..<t + unat sampleCount]) = []"
    by (simp add: filter_empty_conv)
  with sampleADCChannel_average(1) [of "\<lambda>k. 0" sampleCount t] show ?thesis
    by (simp only: refl if_True)
qed

lemma ackSampled_full_scale:
  "ackSampled (\<lambda>k. 4095) 2000 s i"
proof -
  have "unat (fst (sampleADCChannel (\<lambda>k. 4095) CVSampleCount (adcReads s + 250 * i))) = unat (4095 :: i32)"
    by (rule sampleADCChannel_constant) (simp_all add: CVSampleCount_def word_sless_alt)
  then show ?thesis
    by (simp add: ackSampled_def ackThreshold_def)
qed

lemma ackSampled_silent:
  "\<not> ackSampled (\<lambda>k. 0) 2000 s i"
  by (simp add: ackSampled_def sampleADCChannel_all_zero)

text \<open>
  Below 4 mA the threshold does not fit: for 1 mA the \<^verbatim>\<open>uint16_t\<close> holds 245760 modulo 65536.
  A maximum current of 0 divides by zero.
\<close>

lemma milliAmpAck_truncated: "milliAmpAck 1 = Inr 49152" and "milliAmpAck 0 = Inl DivisionByZero"
  by (simp_all add: milliAmpAck_def)

text \<open>
  Claim C6. Let the motor board give a maximum current of at least 4 mA, so that the
  threshold \<open>4096 * 60 / max_ma\<close> fits the \<^verbatim>\<open>uint16_t\<close> it is stored in. For every CV number
  and every sequence of ADC readings, \<^verbatim>\<open>readCV\<close> returns after nine runs of 250 readings;
  it returns \<open>-1\<close> when the average of the ninth run, taken after the verify-byte packets,
  is not above the threshold; otherwise it returns a value from 0 to 255 whose bit \<open>i\<close>,
  for \<open>i\<close> from 0 to 7, is set exactly when the average of the run taken after the packets
  for bit \<open>i\<close> is above the threshold.
\<close>

theorem C6_readCV_result:
  assumes "4 \<le> unat maxMilliAmps"
  shows "\<exists>v s'. readCV adc maxMilliAmps cv s = Inr (v, s')
           \<and> adcReads s' = adcReads s + 250 * 9
           \<and> (if ackSampled adc maxMilliAmps s 8
               then 0 \<le> v \<and> v \<le> 255 \<and> (\<forall>i<8. bit v i \<longleftrightarrow> ackSampled adc maxMilliAmps s i)
               else v = - 1)"
proof -
  from milliAmpAck_threshold [OF assms] obtain ack where
    ack: "milliAmpAck maxMilliAmps = Inr ack" and thr: "unat ack = ackThreshold maxMilliAmps"
    by blast
  let ?pkt = "[0x78 + (highByte (uint cv - 1) AND 0x03), lowByte (uint cv - 1), 0x00, 0x00]"
  from readCVLoop_bits [of 0 8 adc ack ?pkt 0 s] obtain c s1 where
    loop: "readCVLoop adc ack 0 ?pkt 0 s = (c, s1)"
    and reads: "adcReads s1 = adcReads s + 250 * 8"
    and bits: "\<forall>j. bit c j \<longleftrightarrow>
                 (j < 8 \<and> ucast ack < fst (sampleADCChannel adc CVSampleCount (adcReads s + 250 * j)))"
    by auto
  have sampled: "ucast ack < fst (sampleADCChannel adc CVSampleCount (adcReads s + 250 * i))
                   \<longleftrightarrow> ackSampled adc maxMilliAmps s i" for i
    by (simp add: ack_compare thr ackSampled_def)
  from bits have cbits: "\<forall>j. bit c j \<longleftrightarrow> (j < 8 \<and> ackSampled adc maxMilliAmps s j)"
    by (simp add: sampled)
  then have small: "\<forall>j. bit c j \<longrightarrow> j < 8" by blast
  note val = low_byte_value [OF small]
  let ?v = "sint (if \<not> ackSampled adc maxMilliAmps s 8 then - 1 else c)"
  have res: "\<exists>s'. readCV adc maxMilliAmps cv s = Inr (?v, s') \<and> adcReads s' = adcReads s + 250 * 9"
    by (simp add: readCV_def ack loop Let_def reads sample_snd sampled [of 8, simplified])
  show ?thesis
  proof (cases "ackSampled adc maxMilliAmps s 8")
    case True
    with val cbits have "0 \<le> ?v \<and> ?v \<le> 255 \<and> (\<forall>i<8. bit ?v i \<longleftrightarrow> ackSampled adc maxMilliAmps s i)"
      by simp
    with res True show ?thesis by auto
  next
    case False
    then have "?v = - 1" by simp
    with res False show ?thesis by auto
  qed
qed

theorem C6_readCV_result_witness:
  "4 \<le> unat (2000 :: 16 word)
   \<and> (\<exists>v s'. readCV (\<lambda>k. 4095) 2000 1 \<lparr>adcReads = 0, loaded = []\<rparr> = Inr (v, s')
          \<and> 0 \<le> v \<and> v \<le> 255 \<and> bit v 0 \<and> bit v 7)
   \<and> (\<exists>s'. readCV (\<lambda>k. 0) 2000 1 \<lparr>adcReads = 0, loaded = []\<rparr> = Inr (- 1, s'))"
proof -
  have m: "4 \<le> unat (2000 :: 16 word)" by simp
  from C6_readCV_result [OF m, of "\<lambda>k. 4095" 1 "\<lparr>adcReads = 0, loaded = []\<rparr>"]
  have one: "\<exists>v s'. readCV (\<lambda>k. 4095) 2000 1 \<lparr>adcReads = 0, loaded = []\<rparr> = Inr (v, s')
          \<and> 0 \<le> v \<and> v \<le> 255 \<and> bit v 0 \<and> bit v 7"
    by (simp only: ackSampled_full_scale if_True) auto
  from C6_readCV_result [OF m, of "\<lambda>k. 0" 1 "\<lparr>adcReads = 0, loaded = []\<rparr>"]
  have two: "\<exists>s'. readCV (\<lambda>k. 0) 2000 1 \<lparr>adcReads = 0, loaded = []\<rparr> = Inr (- 1, s')"
    by (simp only: ackSampled_silent if_False) auto
  from m one two show ?thesis by blast
qed


end
